theory Spec2Isabelle
  imports Main "HOL-Library.Sublist" "HOL-Library.Multiset"
begin

section \<open>Data model of the NASA image search client\<close>

text \<open>
  The JSON documents the client reads, typed by the fields the code accesses.
  A search entry is \<open>item\<close>: \<open>item["data"]\<close> is a list of metadata dictionaries and
  \<open>item["href"]\<close> the address of the detail document. A dictionary with string keys is
  an association list read with \<open>map_of\<close>.
\<close>

type_synonym metadata = "(string \<times> string) list"

record item =
  data :: "metadata list"
  href :: string

text \<open>\<open>data["metadata"]["total_hits"]\<close>, \<open>data["items"]\<close> and \<open>data["links"]\<close>
  (each link a pair of its \<open>rel\<close> and its \<open>href\<close>) of a search page.\<close>

record page =
  total_hits :: nat
  items :: "item list"
  links :: "(string \<times> string) list"

text \<open>An HTTP response: its status code and its decoded JSON body.\<close>

datatype 'a response = Response (status: nat) (json: 'a)

datatype error =
    ClientResponseError nat
  | IndexError
  | KeyError string
  | AttributeError
  | RuntimeError

text \<open>\<open>resp.raise_for_status()\<close> of aiohttp raises for every status from 400 on.\<close>

definition raise_for_status :: "'a response \<Rightarrow> error + 'a" where
  "raise_for_status resp =
     (if 400 \<le> status resp then Inl (ClientResponseError (status resp)) else Inr (json resp))"

text \<open>The remote services: the search endpoint and the detail endpoint, by request URL;
  each answers a URL the same way throughout a run. A detail document is a JSON array of
  asset URLs.\<close>

record world =
  search_api :: "string \<Rightarrow> page response"
  detail_api :: "string \<Rightarrow> string list response"

text \<open>The hydrated record: the copied metadata dictionary and, under the key
  \<open>image_urls\<close>, a dictionary from size tier to URL, in insertion order.\<close>

record hydrated =
  meta :: metadata
  image_urls :: "(string \<times> string) list"

section \<open>\<open>NASAApi._get_item\<close>\<close>

text \<open>Python's \<open>key in u\<close> on strings: \<open>key\<close> occurs in \<open>u\<close> as a contiguous substring.\<close>

fun contains :: "string \<Rightarrow> string \<Rightarrow> bool" where
  "contains key [] = (key = [])"
| "contains key (c # cs) = (prefix key (c # cs) \<or> contains key cs)"

definition tier_keys :: "string list" where
  "tier_keys = [''orig'', ''large'', ''medium'', ''small'', ''thumb'']"

text \<open>
  \<^verbatim>\<open>url = next((u for u in data if key in u), None)\<close> followed by \<^verbatim>\<open>if url:\<close>, which
  also rejects the empty string.
\<close>

definition tier_url :: "string list \<Rightarrow> string \<Rightarrow> string option" where
  "tier_url doc key =
     (case find (contains key) doc of
        None \<Rightarrow> None
      | Some u \<Rightarrow> if u \<noteq> [] then Some u else None)"

text \<open>The loop over the five tier keys, filling \<open>result["image_urls"]\<close>.\<close>

fun parse_image_urls :: "string list \<Rightarrow> string list \<Rightarrow> (string \<times> string) list" where
  "parse_image_urls doc [] = []"
| "parse_image_urls doc (key # keys) =
     (case tier_url doc key of
        None \<Rightarrow> parse_image_urls doc keys
      | Some u \<Rightarrow> (key, u) # parse_image_urls doc keys)"

text \<open>
  \<open>_get_item\<close> up to its \<open>queue.put\<close>: \<open>item["data"][0]\<close> raises on an empty list, the
  detail request raises on an error status, otherwise the record is built.
\<close>

definition get_item :: "world \<Rightarrow> item \<Rightarrow> error + hydrated" where
  "get_item w it =
     (case data it of
        [] \<Rightarrow> Inl IndexError
      | d # _ \<Rightarrow>
          (case raise_for_status (detail_api w (href it)) of
             Inl e \<Rightarrow> Inl e
           | Inr doc \<Rightarrow> Inr \<lparr>meta = d, image_urls = parse_image_urls doc tier_keys\<rparr>))"

section \<open>\<open>NASAApi\<close> as a context manager\<close>

text \<open>
  The fields \<open>session\<close> and \<open>_entered_count\<close> of the object. A \<open>ClientSession\<close> is known
  by its identity, a number; \<open>created\<close> lists the sessions constructed so far and
  \<open>closed\<close> those whose \<open>close()\<close> has been awaited, both in order.
\<close>

record api =
  session :: "nat option"
  entered_count :: int
  created :: "nat list"
  closed :: "nat list"

definition api_init :: api where
  "api_init = \<lparr>session = None, entered_count = 0, created = [], closed = []\<rparr>"

text \<open>\<open>open\<close>: \<^verbatim>\<open>self.session = aiohttp.ClientSession()\<close>, a fresh object each time.\<close>

definition api_open :: "api \<Rightarrow> api" where
  "api_open a = a\<lparr>session := Some (length (created a)),
                  created := created a @ [length (created a)]\<rparr>"

definition aenter :: "api \<Rightarrow> api" where
  "aenter a = (let a' = api_open a in a'\<lparr>entered_count := entered_count a' + 1\<rparr>)"

text \<open>\<open>close\<close>: \<^verbatim>\<open>self.session.close()\<close>; on \<open>None\<close> the attribute access raises.\<close>

definition api_close :: "api \<Rightarrow> error + api" where
  "api_close a =
     (case session a of
        None \<Rightarrow> Inl AttributeError
      | Some p \<Rightarrow> Inr (a\<lparr>closed := closed a @ [p]\<rparr>))"

definition aexit :: "api \<Rightarrow> error + api" where
  "aexit a =
     (let a' = a\<lparr>entered_count := entered_count a - 1\<rparr>
      in if entered_count a' = 0 then api_close a' else Inr a')"

section \<open>The fetch pipeline: \<open>search\<close>, \<open>_get_pages\<close>, \<open>_get_item\<close>, \<open>ResultIterator\<close>\<close>

text \<open>
  The tasks of one search run on a single event loop: the page walker \<open>_get_pages\<close>, one
  \<open>_get_item\<close> task per entry, and the consumer (first \<open>search\<close>, then \<open>__anext__\<close>).
  Between two suspension points a task runs alone, so a run is a sequence of atomic
  steps, and the order of the steps is the schedule. The model takes the schedule as an
  input and leaves it arbitrary.

  The values on the queue: the total put by the walker, a record put by an item task,
  and \<open>None\<close>, the sentinel.
\<close>

datatype qval = Total nat | Rec hydrated | Sentinel

datatype tstatus = Pending | Done | Failed error

text \<open>
  The walker is at the loop head with \<open>next_page\<close> and \<open>first\<close>, or waits in
  \<open>asyncio.gather\<close>, or has returned, or has raised.
\<close>

datatype walker_pc = Loop "string option" bool | Gathering | Finished | Raised error

text \<open>What has happened so far, in order: a history that no step reads.\<close>

datatype event = ESpawn nat | EExit nat | EPut qval | EGet qval | EStop

record state =
  walker :: walker_pc
  tasks :: "(item \<times> tstatus) list"
  queue :: "qval list"
  iterator :: "qval option"
  delivered :: "qval list"
  stops :: nat
  fetched :: "page list"
  trace :: "event list"

text \<open>
  \<open>tasks\<close> holds the item tasks in creation order, each with its argument;
  \<open>iterator\<close> is \<open>None\<close> while \<open>search\<close> waits and then holds the \<open>total\<close> of the
  \<open>ResultIterator\<close> it returned; \<open>delivered\<close> are the values \<open>__anext__\<close> returned and
  \<open>stops\<close> counts the \<open>StopAsyncIteration\<close> it raised; \<open>fetched\<close> are the pages read.
\<close>

definition BASE_URL :: string where
  "BASE_URL = ''https://images-api.nasa.gov''"

text \<open>The first request URL; \<open>params\<close> stands for \<open>urllib.parse.urlencode(kwargs)\<close>.\<close>

definition search_url :: "string \<Rightarrow> string" where
  "search_url params = BASE_URL @ ''/search?'' @ params"

definition init :: "string \<Rightarrow> state" where
  "init params =
     \<lparr>walker = Loop (Some (search_url params)) True, tasks = [], queue = [],
      iterator = None, delivered = [], stops = 0, fetched = [], trace = []\<rparr>"

text \<open>\<^verbatim>\<open>next((url["href"] for url in data["links"] if url["rel"] == "next"), None)\<close>\<close>

definition next_link :: "(string \<times> string) list \<Rightarrow> string option" where
  "next_link ls = map_option snd (find (\<lambda>l. fst l = ''next'') ls)"

text \<open>\<open>queue.put\<close> on the unbounded queue.\<close>

definition put :: "qval \<Rightarrow> state \<Rightarrow> state" where
  "put v s = s\<lparr>queue := queue s @ [v], trace := trace s @ [EPut v]\<rparr>"

text \<open>\<^verbatim>\<open>for item in data["items"]: tasks.add(asyncio.create_task(self._get_item(queue, item)))\<close>\<close>

fun spawn_all :: "item list \<Rightarrow> state \<Rightarrow> state" where
  "spawn_all [] s = s"
| "spawn_all (it # its) s =
     spawn_all its (s\<lparr>tasks := tasks s @ [(it, Pending)],
                     trace := trace s @ [ESpawn (length (tasks s))]\<rparr>)"

text \<open>
  One step of \<open>_get_pages\<close>. At the loop head a falsy \<open>next_page\<close> (\<open>None\<close> or the empty
  string) leaves the loop; otherwise the page is requested (after the rate limiter has
  let the walker through, which delays the request and changes nothing else), an error
  status raises, and the page is processed: the total is put if this is the first page, and a task is
  created for each entry. In \<open>gather\<close> the walker is woken with the exception of a failed
  child, or, when every child has returned, goes on to put the sentinel. Which failed
  child is reported first when several have failed depends on the iteration order of
  the set of tasks; the index \<open>k\<close> of the action chooses it.
\<close>

definition walker_step :: "world \<Rightarrow> nat \<Rightarrow> state \<Rightarrow> state" where
  "walker_step w k s =
     (case walker s of
        Loop None first \<Rightarrow> s\<lparr>walker := Gathering\<rparr>
      | Loop (Some url) first \<Rightarrow>
          if url = [] then s\<lparr>walker := Gathering\<rparr>
          else
            (case raise_for_status (search_api w url) of
               Inl e \<Rightarrow> s\<lparr>walker := Raised e\<rparr>
             | Inr pg \<Rightarrow>
                 let s1 = s\<lparr>fetched := fetched s @ [pg]\<rparr>;
                     s2 = (if first then put (Total (total_hits pg)) s1 else s1);
                     s3 = spawn_all (items pg) s2
                 in s3\<lparr>walker := Loop (next_link (links pg)) False\<rparr>)
      | Gathering \<Rightarrow>
          (case (if k < length (tasks s) then snd (tasks s ! k) else Pending) of
             Failed e \<Rightarrow> s\<lparr>walker := Raised e\<rparr>
           | _ \<Rightarrow>
               if \<forall>t \<in> set (tasks s). snd t = Done
               then (put Sentinel s)\<lparr>walker := Finished\<rparr>
               else s)
      | Finished \<Rightarrow> s
      | Raised e \<Rightarrow> s)"

text \<open>One step of the \<open>k\<close>-th item task: \<open>_get_item\<close> from its start to its end.\<close>

definition fetcher_step :: "world \<Rightarrow> nat \<Rightarrow> state \<Rightarrow> state" where
  "fetcher_step w k s =
     (if k < length (tasks s) then
        (case tasks s ! k of
           (it, Pending) \<Rightarrow>
             (case get_item w it of
                Inl e \<Rightarrow> s\<lparr>tasks := (tasks s)[k := (it, Failed e)],
                            trace := trace s @ [EExit k]\<rparr>
              | Inr r \<Rightarrow> s\<lparr>tasks := (tasks s)[k := (it, Done)],
                            queue := queue s @ [Rec r],
                            trace := trace s @ [EPut (Rec r), EExit k]\<rparr>)
         | _ \<Rightarrow> s)
      else s)"

text \<open>
  One step of the consumer: \<open>queue.get()\<close>, which waits on an empty queue. The first
  value goes to \<open>search\<close>, which returns the iterator; every later one to \<open>__anext__\<close>,
  which raises \<open>StopAsyncIteration\<close> on \<open>None\<close> and returns the value otherwise.
\<close>

definition consumer_step :: "state \<Rightarrow> state" where
  "consumer_step s =
     (case queue s of
        [] \<Rightarrow> s
      | v # q \<Rightarrow>
          let s' = s\<lparr>queue := q, trace := trace s @ [EGet v]\<rparr>
          in (case iterator s of
                None \<Rightarrow> s'\<lparr>iterator := Some v\<rparr>
              | Some _ \<Rightarrow>
                  if v = Sentinel
                  then s'\<lparr>stops := stops s + 1, trace := trace s' @ [EStop]\<rparr>
                  else s'\<lparr>delivered := delivered s @ [v]\<rparr>))"

datatype action = Walker nat | Fetcher nat | Consumer

fun step :: "world \<Rightarrow> action \<Rightarrow> state \<Rightarrow> state" where
  "step w (Walker k) s = walker_step w k s"
| "step w (Fetcher k) s = fetcher_step w k s"
| "step w Consumer s = consumer_step s"

fun exec :: "world \<Rightarrow> action list \<Rightarrow> state \<Rightarrow> state" where
  "exec w [] s = s"
| "exec w (a # as) s = exec w as (step w a s)"

definition run :: "world \<Rightarrow> string \<Rightarrow> action list \<Rightarrow> state" where
  "run w params sched = exec w sched (init params)"

text \<open>Projections of the history.\<close>

fun puts :: "event list \<Rightarrow> qval list" where
  "puts [] = []"
| "puts (EPut v # es) = v # puts es"
| "puts (_ # es) = puts es"

fun gets :: "event list \<Rightarrow> qval list" where
  "gets [] = []"
| "gets (EGet v # es) = v # gets es"
| "gets (_ # es) = gets es"

fun recs :: "qval list \<Rightarrow> hydrated list" where
  "recs [] = []"
| "recs (Rec r # vs) = r # recs vs"
| "recs (_ # vs) = recs vs"

definition entries :: "state \<Rightarrow> item list" where
  "entries s = concat (map items (fetched s))"


definition nasa_id :: "hydrated \<Rightarrow> string option" where
  "nasa_id r = map_of (meta r) ''nasa_id''"


text \<open>A run has failed when the walker has raised or an item task has.\<close>

fun is_failed :: "tstatus \<Rightarrow> bool" where
  "is_failed (Failed e) = True"
| "is_failed _ = False"



subsection \<open>Invariants of a run\<close>

text \<open>
  What holds of every state a run reaches: the queue is first-in first-out between puts
  and gets; the tasks are the entries of the pages read; an exit is recorded for exactly
  the tasks that are no longer pending; the records put are the results of the tasks
  that are done; the puts are the total, then records, then the sentinel once the walker
  has returned; and what the consumer holds is what it received.
\<close>

fun spawns :: "event list \<Rightarrow> nat list" where
  "spawns [] = []"
| "spawns (ESpawn k # es) = k # spawns es"
| "spawns (_ # es) = spawns es"

fun exits :: "event list \<Rightarrow> nat list" where
  "exits [] = []"
| "exits (EExit k # es) = k # exits es"
| "exits (_ # es) = exits es"

definition opt :: "'a option \<Rightarrow> 'a list" where
  "opt x = (case x of None \<Rightarrow> [] | Some v \<Rightarrow> [v])"

definition total_part :: "state \<Rightarrow> qval list" where
  "total_part s = (case fetched s of [] \<Rightarrow> [] | pg # _ \<Rightarrow> [Total (total_hits pg)])"

definition sentinel_part :: "state \<Rightarrow> qval list" where
  "sentinel_part s = (if walker s = Finished then [Sentinel] else [])"

definition inv_fifo :: "state \<Rightarrow> bool" where
  "inv_fifo s \<longleftrightarrow> gets (trace s) @ queue s = puts (trace s)"

definition inv_tasks :: "state \<Rightarrow> bool" where
  "inv_tasks s \<longleftrightarrow>
     map fst (tasks s) = entries s \<and> spawns (trace s) = [0..<length (tasks s)]"

definition inv_exits :: "state \<Rightarrow> bool" where
  "inv_exits s \<longleftrightarrow>
     set (exits (trace s)) = {k. k < length (tasks s) \<and> snd (tasks s ! k) \<noteq> Pending}"

definition done_results :: "world \<Rightarrow> (item \<times> tstatus) list \<Rightarrow> (error + hydrated) multiset" where
  "done_results w ts = image_mset (\<lambda>t. get_item w (fst t)) (filter_mset (\<lambda>t. snd t = Done) (mset ts))"

definition inv_records :: "world \<Rightarrow> state \<Rightarrow> bool" where
  "inv_records w s \<longleftrightarrow>
     image_mset Inr (mset (recs (puts (trace s)))) = done_results w (tasks s)"

definition inv_shape :: "state \<Rightarrow> bool" where
  "inv_shape s \<longleftrightarrow>
     puts (trace s) = total_part s @ map Rec (recs (puts (trace s))) @ sentinel_part s"

definition sentinel_split :: "state \<Rightarrow> bool" where
  "sentinel_split s \<longleftrightarrow>
     (\<exists>pre post. trace s = pre @ EPut Sentinel # post \<and> Sentinel \<notin> set (puts pre)
        \<and> set (exits pre) = {0..<length (tasks s)}
        \<and> spawns post = [] \<and> exits post = [] \<and> puts post = [])"

definition inv_walker :: "string \<Rightarrow> state \<Rightarrow> bool" where
  "inv_walker params s \<longleftrightarrow>
     (case walker s of
        Loop np first \<Rightarrow>
          (if first then np = Some (search_url params) \<and> fetched s = [] else fetched s \<noteq> [])
      | Gathering \<Rightarrow> fetched s \<noteq> []
      | Finished \<Rightarrow>
          fetched s \<noteq> [] \<and> (\<forall>t \<in> set (tasks s). snd t = Done) \<and> sentinel_split s
      | Raised e \<Rightarrow> True)"

definition inv_first :: "world \<Rightarrow> string \<Rightarrow> state \<Rightarrow> bool" where
  "inv_first w params s \<longleftrightarrow>
     (case fetched s of
        [] \<Rightarrow> trace s = [] \<and> tasks s = []
      | pg # _ \<Rightarrow> pg = json (search_api w (search_url params))
                  \<and> (\<exists>rest. trace s = EPut (Total (total_hits pg)) # rest))"

definition inv_consumer :: "state \<Rightarrow> bool" where
  "inv_consumer s \<longleftrightarrow>
     gets (trace s) = opt (iterator s) @ delivered s @ replicate (stops s) Sentinel
     \<and> (iterator s = None \<longrightarrow> delivered s = [] \<and> stops s = 0)
     \<and> Sentinel \<notin> set (delivered s)
     \<and> (0 < stops s \<longrightarrow> queue s = [] \<and> stops s = 1)"

definition invariant :: "world \<Rightarrow> string \<Rightarrow> state \<Rightarrow> bool" where
  "invariant w params s \<longleftrightarrow>
     inv_fifo s \<and> inv_tasks s \<and> inv_exits s \<and> inv_records w s \<and> inv_shape s
     \<and> inv_walker params s \<and> inv_first w params s \<and> inv_consumer s"

section \<open>The downstream driver: \<open>main\<close> and \<open>rekognize\<close>\<close>

text \<open>
  The services \<open>rekognize\<close> calls: the image download by URL and the label detection on
  the image bytes, whose answer is kept as an opaque text.
\<close>

record env =
  image_api :: "string \<Rightarrow> string response"
  detect_labels :: "string \<Rightarrow> error + string"

text \<open>The two files a worker writes: name and content.\<close>

record artifacts =
  meta_file :: "string \<times> hydrated \<times> string"
  image_file :: "string \<times> string"

definition worker_keys :: "string list" where
  "worker_keys = [''medium'', ''small'', ''large'', ''orig'', ''thumb'']"

text \<open>\<^verbatim>\<open>url.split('.')[-1]\<close>: what follows the last dot, or all of it without one.\<close>

definition extension :: "string \<Rightarrow> string" where
  "extension url = rev (takeWhile (\<lambda>c. c \<noteq> CHR ''.'') (rev url))"

text \<open>
  \<open>rekognize\<close>. \<^verbatim>\<open>next(k for k in keys if k in item["image_urls"])\<close> has no default: with
  no key present it raises \<open>StopIteration\<close>, which a coroutine turns into
  \<open>RuntimeError\<close>. The body of the \<open>async with\<close> of the image request is read as
  \<open>raise_for_status\<close> followed by the read of the bytes. The limiter only delays the
  worker.
\<close>

definition rekognize :: "env \<Rightarrow> hydrated \<Rightarrow> error + artifacts" where
  "rekognize env it =
     (case find (\<lambda>k. map_of (image_urls it) k \<noteq> None) worker_keys of
        None \<Rightarrow> Inl RuntimeError
      | Some key \<Rightarrow>
          (case map_of (image_urls it) key of
             None \<Rightarrow> Inl (KeyError key)
           | Some url \<Rightarrow>
               (case raise_for_status (image_api env url) of
                  Inl e \<Rightarrow> Inl e
                | Inr img \<Rightarrow>
                    (case detect_labels env img of
                       Inl e \<Rightarrow> Inl e
                     | Inr labels \<Rightarrow>
                         (case nasa_id it of
                            None \<Rightarrow> Inl (KeyError ''nasa_id'')
                          | Some img_id \<Rightarrow>
                              Inr \<lparr>meta_file = (''meta_'' @ img_id @ ''.json'', it, labels),
                                   image_file = (''image_'' @ img_id @ ''.'' @ extension url, img)\<rparr>)))))"

datatype wstatus = WPending | WDone | WFailed error | WCancelled

text \<open>
  \<open>main\<close> is in its \<open>async for\<close> loop with the items still to come, or waits in
  \<open>asyncio.gather\<close>, or has returned, or has raised.
\<close>

datatype main_pc = Streaming "hydrated list" | Joining | Returned | Aborted error

record driver =
  img_ids :: "string set"
  workers :: "(hydrated \<times> wstatus) list"
  pbar_total :: nat
  pbar_n :: nat
  written :: "artifacts list"
  pc :: main_pc

text \<open>\<open>ids\<close> are the identifiers read from the output directory, \<open>stream\<close> the items the
  iterator will deliver.\<close>

definition driver_init :: "string set \<Rightarrow> hydrated list \<Rightarrow> driver" where
  "driver_init ids stream =
     \<lparr>img_ids = ids, workers = [], pbar_total = 0, pbar_n = 0, written = [],
      pc = Streaming stream\<rparr>"

text \<open>When \<open>main\<close> raises, \<open>asyncio.run\<close> cancels the tasks that are still running.\<close>

fun cancel :: "hydrated \<times> wstatus \<Rightarrow> hydrated \<times> wstatus" where
  "cancel (it, WPending) = (it, WCancelled)"
| "cancel t = t"

definition abort :: "error \<Rightarrow> driver \<Rightarrow> driver" where
  "abort e d = d\<lparr>workers := map cancel (workers d), pc := Aborted e\<rparr>"

text \<open>
  One step of \<open>main\<close>: one round of the loop, or, once the iterator has stopped, the
  \<open>gather\<close> over the workers, which returns at once when there is none.
\<close>

definition main_step :: "nat \<Rightarrow> driver \<Rightarrow> driver" where
  "main_step k d =
     (case pc d of
        Streaming [] \<Rightarrow> d\<lparr>pc := (if workers d = [] then Returned else Joining)\<rparr>
      | Streaming (it # rest) \<Rightarrow>
          (case nasa_id it of
             None \<Rightarrow> abort (KeyError ''nasa_id'') d
           | Some i \<Rightarrow>
               if i \<notin> img_ids d
               then d\<lparr>img_ids := insert i (img_ids d),
                      workers := workers d @ [(it, WPending)],
                      pbar_total := pbar_total d + 1,
                      pc := Streaming rest\<rparr>
               else d\<lparr>pc := Streaming rest\<rparr>)
      | Joining \<Rightarrow>
          (case (if k < length (workers d) then snd (workers d ! k) else WPending) of
             WFailed e \<Rightarrow> abort e d
           | _ \<Rightarrow> if \<forall>t \<in> set (workers d). snd t = WDone then d\<lparr>pc := Returned\<rparr> else d)
      | Returned \<Rightarrow> d
      | Aborted e \<Rightarrow> d)"

definition worker_step :: "env \<Rightarrow> nat \<Rightarrow> driver \<Rightarrow> driver" where
  "worker_step env k d =
     (if k < length (workers d) then
        (case workers d ! k of
           (it, WPending) \<Rightarrow>
             (case rekognize env it of
                Inl e \<Rightarrow> d\<lparr>workers := (workers d)[k := (it, WFailed e)]\<rparr>
              | Inr out \<Rightarrow> d\<lparr>workers := (workers d)[k := (it, WDone)],
                              written := written d @ [out],
                              pbar_n := pbar_n d + 1\<rparr>)
         | _ \<Rightarrow> d)
      else d)"

datatype daction = Main nat | Worker nat

fun dstep :: "env \<Rightarrow> daction \<Rightarrow> driver \<Rightarrow> driver" where
  "dstep env (Main k) d = main_step k d"
| "dstep env (Worker k) d = worker_step env k d"

fun dexec :: "env \<Rightarrow> daction list \<Rightarrow> driver \<Rightarrow> driver" where
  "dexec env [] d = d"
| "dexec env (a # as) d = dexec env as (dstep env a d)"

definition drun :: "env \<Rightarrow> string set \<Rightarrow> hydrated list \<Rightarrow> daction list \<Rightarrow> driver" where
  "drun env ids stream sched = dexec env sched (driver_init ids stream)"

fun is_main :: "daction \<Rightarrow> bool" where
  "is_main (Main k) = True"
| "is_main (Worker k) = False"

text \<open>The number of steps \<open>main\<close> has taken in a schedule.\<close>

definition main_steps :: "daction list \<Rightarrow> nat" where
  "main_steps sched = length (filter is_main sched)"

definition worker_ids :: "driver \<Rightarrow> string option list" where
  "worker_ids d = map (\<lambda>t. nasa_id (fst t)) (workers d)"

text \<open>The invariant of the driver: one worker per identifier, each identifier added
  to the in-memory set and new to the set \<open>ids\<close> loaded at the start.\<close>

definition spawned_once :: "string set \<Rightarrow> driver \<Rightarrow> bool" where
  "spawned_once ids d \<longleftrightarrow>
     distinct (worker_ids d) \<and> set (worker_ids d) \<subseteq> Some ` (img_ids d - ids) \<and> ids \<subseteq> img_ids d"

section \<open>A two-page search\<close>

text \<open>
  A search answered in two pages: the first announces three hits, carries the entries A
  and B and a link to the second, which carries the entry C and no further link. The
  detail documents are given separately, so that a missing tier or a failing request can
  be put in.
\<close>

definition ex_item :: "string \<Rightarrow> item" where
  "ex_item i = \<lparr>data = [[(''nasa_id'', i)]], href = i @ ''.json''\<rparr>"

definition ex_doc :: "string \<Rightarrow> string list" where
  "ex_doc i = [''metadata.json'', i @ ''~thumb.jpg'', i @ ''~large.jpg'']"

definition ex_search :: "string \<Rightarrow> page response" where
  "ex_search u =
     (if u = search_url ''q=dock''
      then Response 200 \<lparr>total_hits = 3, items = [ex_item ''A'', ex_item ''B''],
                          links = [(''next'', ''page2'')]\<rparr>
      else if u = ''page2''
      then Response 200 \<lparr>total_hits = 3, items = [ex_item ''C''],
                          links = [(''prev'', search_url ''q=dock'')]\<rparr>
      else Response 404 \<lparr>total_hits = 0, items = [], links = []\<rparr>)"

definition ex_detail :: "string \<Rightarrow> string list response" where
  "ex_detail u =
     (if u = ''A.json'' then Response 200 (ex_doc ''A'')
      else if u = ''B.json'' then Response 200 (ex_doc ''B'')
      else if u = ''C.json'' then Response 200 (ex_doc ''C'')
      else Response 404 [])"

definition ex_world :: world where
  "ex_world = \<lparr>search_api = ex_search, detail_api = ex_detail\<rparr>"

definition ex_rec :: "string \<Rightarrow> hydrated" where
  "ex_rec i = \<lparr>meta = [(''nasa_id'', i)],
               image_urls = [(''large'', i @ ''~large.jpg''), (''thumb'', i @ ''~thumb.jpg'')]\<rparr>"

text \<open>A schedule that runs the search to its end, the item tasks out of page order.\<close>

definition ex_sched :: "action list" where
  "ex_sched = [Walker 0, Consumer, Fetcher 1, Walker 0, Fetcher 0, Consumer, Fetcher 2,
               Walker 0, Walker 0, Consumer, Consumer, Consumer]"

text \<open>The state this schedule ends in, and the history before and after the sentinel.\<close>

definition ex_trace_pre :: "event list" where
  "ex_trace_pre =
     [EPut (Total 3), ESpawn 0, ESpawn 1, EGet (Total 3), EPut (Rec (ex_rec ''B'')), EExit 1,
      ESpawn 2, EPut (Rec (ex_rec ''A'')), EExit 0, EGet (Rec (ex_rec ''B'')),
      EPut (Rec (ex_rec ''C'')), EExit 2]"

definition ex_trace_post :: "event list" where
  "ex_trace_post =
     [EGet (Rec (ex_rec ''A'')), EGet (Rec (ex_rec ''C'')), EGet Sentinel, EStop]"

definition ex_final :: state where
  "ex_final =
     \<lparr>walker = Finished,
      tasks = [(ex_item ''A'', Done), (ex_item ''B'', Done), (ex_item ''C'', Done)],
      queue = [], iterator = Some (Total 3),
      delivered = [Rec (ex_rec ''B''), Rec (ex_rec ''A''), Rec (ex_rec ''C'')],
      stops = 1,
      fetched = [json (ex_search (search_url ''q=dock'')), json (ex_search ''page2'')],
      trace = ex_trace_pre @ EPut Sentinel # ex_trace_post\<rparr>"








definition ex_env :: env where
  "ex_env = \<lparr>image_api = (\<lambda>u. Response 200 ''JFIF''), detect_labels = (\<lambda>img. Inr ''[]'')\<rparr>"


section \<open>Substring test and tier parsing\<close>

lemma contains_iff_sublist: "contains key u \<longleftrightarrow> sublist key u"
  by (induction u) (auto simp: sublist_Cons_right)

lemma contains_nonempty: "contains key u \<Longrightarrow> key \<noteq> [] \<Longrightarrow> u \<noteq> []"
  by (cases u) auto

lemma find_Some_set: "find P xs = Some x \<Longrightarrow> x \<in> set xs \<and> P x"
  by (induction xs) (auto split: if_splits)

lemma tier_url_None: "(\<forall>u \<in> set doc. \<not> contains key u) \<Longrightarrow> tier_url doc key = None"
  by (auto simp: tier_url_def split: option.splits dest: find_Some_set)

lemma tier_url_Some:
  assumes "key \<noteq> []" and "\<exists>u \<in> set doc. contains key u"
  shows "\<exists>u. tier_url doc key = Some u \<and> u \<in> set doc \<and> contains key u"
proof -
  from assms(2) have "find (contains key) doc \<noteq> None"
    by (auto simp: find_None_iff)
  then obtain u where f: "find (contains key) doc = Some u"
    by blast
  then have u: "u \<in> set doc" "contains key u"
    by (auto dest: find_Some_set)
  with assms(1) have "u \<noteq> []"
    using contains_nonempty by blast
  with f u show ?thesis
    by (simp add: tier_url_def)
qed

text \<open>
  C8. A detail document whose URLs contain the substrings "large" and "thumb" and none of
  "orig", "medium", "small" yields a record whose \<open>image_urls\<close> has exactly the keys
  "large" and "thumb", each mapped to a URL of the document that contains the key; the
  other tiers are absent.
\<close>

theorem image_urls_large_thumb:
  assumes ok: "get_item w it = Inr r"
    and doc: "json (detail_api w (href it)) = doc"
    and large: "\<exists>u \<in> set doc. contains ''large'' u"
    and thumb: "\<exists>u \<in> set doc. contains ''thumb'' u"
    and others: "\<forall>u \<in> set doc. \<not> contains ''orig'' u \<and> \<not> contains ''medium'' u \<and> \<not> contains ''small'' u"
  shows "\<exists>ul ut. image_urls r = [(''large'', ul), (''thumb'', ut)]
           \<and> ul \<in> set doc \<and> contains ''large'' ul
           \<and> ut \<in> set doc \<and> contains ''thumb'' ut
           \<and> map_of (image_urls r) ''orig'' = None
           \<and> map_of (image_urls r) ''medium'' = None
           \<and> map_of (image_urls r) ''small'' = None"
proof -
  from ok doc have r: "image_urls r = parse_image_urls doc tier_keys"
    by (auto simp: get_item_def raise_for_status_def split: list.splits if_splits)
  from others have n: "tier_url doc ''orig'' = None" "tier_url doc ''medium'' = None"
    "tier_url doc ''small'' = None"
    by (simp_all add: tier_url_None)
  obtain ul where ul: "tier_url doc ''large'' = Some ul" "ul \<in> set doc" "contains ''large'' ul"
    using tier_url_Some [of "''large''" doc] large by auto
  obtain ut where ut: "tier_url doc ''thumb'' = Some ut" "ut \<in> set doc" "contains ''thumb'' ut"
    using tier_url_Some [of "''thumb''" doc] thumb by auto
  have "image_urls r = [(''large'', ul), (''thumb'', ut)]"
    by (simp add: r tier_keys_def n ul(1) ut(1))
  with ul ut show ?thesis
    by simp
qed

lemmas ex_defs = ex_world_def ex_detail_def ex_item_def ex_doc_def ex_rec_def
  get_item_def raise_for_status_def tier_keys_def tier_url_def

lemma get_item_ex:
  "get_item ex_world (ex_item ''A'') = Inr (ex_rec ''A'')"
  "get_item ex_world (ex_item ''B'') = Inr (ex_rec ''B'')"
  "get_item ex_world (ex_item ''C'') = Inr (ex_rec ''C'')"
  by (simp_all add: ex_defs)

theorem image_urls_large_thumb_witness:
  "get_item ex_world (ex_item ''A'') = Inr (ex_rec ''A'')
   \<and> json (detail_api ex_world (href (ex_item ''A''))) = ex_doc ''A''
   \<and> (\<exists>u \<in> set (ex_doc ''A''). contains ''large'' u)
   \<and> (\<exists>u \<in> set (ex_doc ''A''). contains ''thumb'' u)
   \<and> \<not> (\<exists>u \<in> set (ex_doc ''A''). contains ''orig'' u \<or> contains ''medium'' u
             \<or> contains ''small'' u)
   \<and> (\<exists>ul ut. image_urls (ex_rec ''A'') = [(''large'', ul), (''thumb'', ut)]
           \<and> ul \<in> set (ex_doc ''A'') \<and> contains ''large'' ul
           \<and> ut \<in> set (ex_doc ''A'') \<and> contains ''thumb'' ut
           \<and> map_of (image_urls (ex_rec ''A'')) ''orig'' = None
           \<and> map_of (image_urls (ex_rec ''A'')) ''medium'' = None
           \<and> map_of (image_urls (ex_rec ''A'')) ''small'' = None)"
proof -
  have h1: "get_item ex_world (ex_item ''A'') = Inr (ex_rec ''A'')"
    by (simp add: get_item_ex)
  have h2: "json (detail_api ex_world (href (ex_item ''A''))) = ex_doc ''A''"
    by (simp add: ex_world_def ex_detail_def ex_item_def)
  have h3: "\<exists>u \<in> set (ex_doc ''A''). contains ''large'' u"
    by (simp add: ex_doc_def)
  have h4: "\<exists>u \<in> set (ex_doc ''A''). contains ''thumb'' u"
    by (simp add: ex_doc_def)
  have h5: "\<forall>u \<in> set (ex_doc ''A''). \<not> contains ''orig'' u \<and> \<not> contains ''medium'' u
              \<and> \<not> contains ''small'' u"
    by (simp add: ex_doc_def)
  from image_urls_large_thumb [OF h1 h2 h3 h4 h5] h1 h2 h3 h4 h5 show ?thesis
    by blast
qed

section \<open>Nested use of the context manager\<close>

text \<open>
  C5. Entering the \<open>NASAApi\<close> scope while it is already entered should share the one
  connection pool of the outer scope and tear it down once, at the outermost exit. On
  enter, enter, exit, exit the code constructs a second session at the inner enter, which
  replaces the first; the inner exit closes nothing; the outermost exit closes the second
  session only, and the first one is never closed.
\<close>

theorem nested_enter_opens_second_session:
  "session (aenter api_init) = Some 0
   \<and> session (aenter (aenter api_init)) = Some 1
   \<and> created (aenter (aenter api_init)) = [0, 1]
   \<and> (\<exists>a1 a2. aexit (aenter (aenter api_init)) = Inr a1 \<and> closed a1 = []
         \<and> aexit a1 = Inr a2 \<and> closed a2 = [1] \<and> created a2 = [0, 1]
         \<and> entered_count a2 = 0 \<and> 0 \<notin> set (closed a2))"
  by (simp add: aenter_def api_open_def api_init_def aexit_def api_close_def Let_def)

section \<open>Resuming: the processed set\<close>

lemma worker_step_no_workers: "workers d = [] \<Longrightarrow> worker_step env k d = d"
  by (simp add: worker_step_def)

lemma dexec_returned:
  "pc d = Returned \<Longrightarrow> workers d = [] \<Longrightarrow> dexec env sched d = d"
proof (induction sched)
  case Nil
  then show ?case by simp
next
  case (Cons a as)
  then show ?case
    by (cases a) (simp_all add: main_step_def worker_step_no_workers)
qed

lemma dexec_all_known:
  assumes "pc d = Streaming rest" and "workers d = []"
    and "\<forall>r \<in> set rest. \<exists>i. nasa_id r = Some i \<and> i \<in> img_ids d"
  shows "dexec env sched d =
           d\<lparr>pc := (if main_steps sched \<le> length rest
                     then Streaming (drop (main_steps sched) rest) else Returned)\<rparr>"
  using assms
proof (induction sched arbitrary: d rest)
  case Nil
  then show ?case by (simp add: main_steps_def)
next
  case (Cons a as)
  note prems = Cons.prems and IH = Cons.IH
  show ?case
  proof (cases a)
    case (Worker k)
    with prems IH [OF prems] show ?thesis
      by (simp add: worker_step_no_workers main_steps_def)
  next
    case (Main k)
    show ?thesis
    proof (cases rest)
      case Nil
      with prems have st: "main_step k d = d\<lparr>pc := Returned\<rparr>"
        by (simp add: main_step_def)
      have "dexec env as (d\<lparr>pc := Returned\<rparr>) = d\<lparr>pc := Returned\<rparr>"
        using prems by (intro dexec_returned) simp_all
      with st Main Nil show ?thesis
        by (simp add: main_steps_def)
    next
      case rest: (Cons r rest')
      with prems obtain i where i: "nasa_id r = Some i" "i \<in> img_ids d"
        by auto
      with prems rest have st: "main_step k d = d\<lparr>pc := Streaming rest'\<rparr>"
        by (simp add: main_step_def)
      have "dexec env as (d\<lparr>pc := Streaming rest'\<rparr>) =
              (d\<lparr>pc := Streaming rest'\<rparr>)\<lparr>pc := (if main_steps as \<le> length rest'
                     then Streaming (drop (main_steps as) rest') else Returned)\<rparr>"
        using prems rest by (intro IH) simp_all
      with st Main rest show ?thesis
        by (simp add: main_steps_def)
    qed
  qed
qed


text \<open>
  C9. When the set of processed identifiers loaded at the start holds the identifier of
  every item the stream delivers, the driver creates no worker under any schedule, and
  the step of \<open>main\<close> that finds the stream exhausted is the one that returns: after
  \<open>n\<close> steps of \<open>main\<close> the loop has consumed \<open>n\<close> items, and it has returned once
  \<open>n\<close> exceeds the length of the stream. In one round of the loop an item whose
  identifier is in the set is skipped; otherwise the identifier is added, a worker is
  created and the total of the progress bar grows by one.
\<close>

theorem all_processed_spawns_nothing:
  assumes "\<forall>r \<in> set stream. \<exists>i. nasa_id r = Some i \<and> i \<in> ids"
  shows "workers (drun env ids stream sched) = []
         \<and> pbar_total (drun env ids stream sched) = 0
         \<and> img_ids (drun env ids stream sched) = ids
         \<and> pc (drun env ids stream sched) =
             (if main_steps sched \<le> length stream
              then Streaming (drop (main_steps sched) stream) else Returned)
         \<and> (\<forall>d it rest i k. pc d = Streaming (it # rest) \<and> nasa_id it = Some i \<longrightarrow>
               main_step k d =
                 (if i \<in> img_ids d then d\<lparr>pc := Streaming rest\<rparr>
                  else d\<lparr>img_ids := insert i (img_ids d),
                         workers := workers d @ [(it, WPending)],
                         pbar_total := pbar_total d + 1,
                         pc := Streaming rest\<rparr>))"
proof -
  have "drun env ids stream sched =
          (driver_init ids stream)\<lparr>pc := (if main_steps sched \<le> length stream
              then Streaming (drop (main_steps sched) stream) else Returned)\<rparr>"
    unfolding drun_def using assms
    by (intro dexec_all_known) (simp_all add: driver_init_def)
  then have run: "workers (drun env ids stream sched) = []"
    "pbar_total (drun env ids stream sched) = 0"
    "img_ids (drun env ids stream sched) = ids"
    "pc (drun env ids stream sched) =
             (if main_steps sched \<le> length stream
              then Streaming (drop (main_steps sched) stream) else Returned)"
    by (simp_all add: driver_init_def)
  have "main_step k d =
          (if i \<in> img_ids d then d\<lparr>pc := Streaming rest\<rparr>
           else d\<lparr>img_ids := insert i (img_ids d),
                  workers := workers d @ [(it, WPending)],
                  pbar_total := pbar_total d + 1,
                  pc := Streaming rest\<rparr>)"
    if "pc d = Streaming (it # rest)" "nasa_id it = Some i" for d it rest i k
    using that by (simp add: main_step_def)
  with run show ?thesis
    by blast
qed

lemma drun_ex_known:
  "drun ex_env {''A'', ''B''} [ex_rec ''A'', ex_rec ''B''] [Main 0, Worker 0, Main 0, Main 0]
     = \<lparr>img_ids = {''A'', ''B''}, workers = [], pbar_total = 0, pbar_n = 0, written = [],
        pc = Returned\<rparr>"
  by (simp add: drun_def driver_init_def main_step_def worker_step_def nasa_id_def ex_rec_def)

theorem all_processed_spawns_nothing_witness:
  "nasa_id (ex_rec ''A'') = Some ''A'' \<and> nasa_id (ex_rec ''B'') = Some ''B''
   \<and> workers (drun ex_env {''A'', ''B''} [ex_rec ''A'', ex_rec ''B'']
                [Main 0, Worker 0, Main 0, Main 0]) = []
   \<and> pc (drun ex_env {''A'', ''B''} [ex_rec ''A'', ex_rec ''B'']
                [Main 0, Worker 0, Main 0, Main 0]) = Returned
   \<and> pc (driver_init {''B''} [ex_rec ''A'', ex_rec ''B'']) = Streaming [ex_rec ''A'', ex_rec ''B'']
   \<and> main_step 0 (driver_init {''B''} [ex_rec ''A'', ex_rec ''B''])
       = \<lparr>img_ids = {''A'', ''B''}, workers = [(ex_rec ''A'', WPending)], pbar_total = 1,
          pbar_n = 0, written = [], pc = Streaming [ex_rec ''B'']\<rparr>"
proof -
  have h: "\<forall>r \<in> set [ex_rec ''A'', ex_rec ''B'']. \<exists>i. nasa_id r = Some i \<and> i \<in> {''A'', ''B''}"
    by (simp add: nasa_id_def ex_rec_def)
  have n: "nasa_id (ex_rec ''A'') = Some ''A''" "nasa_id (ex_rec ''B'') = Some ''B''"
    by (simp_all add: nasa_id_def ex_rec_def)
  have p: "pc (driver_init {''B''} [ex_rec ''A'', ex_rec ''B''])
             = Streaming [ex_rec ''A'', ex_rec ''B'']"
    by (simp add: driver_init_def)
  note inst = all_processed_spawns_nothing [OF h, of ex_env "[Main 0, Worker 0, Main 0, Main 0]"]
  from inst have
    "workers (drun ex_env {''A'', ''B''} [ex_rec ''A'', ex_rec ''B'']
                [Main 0, Worker 0, Main 0, Main 0]) = []
     \<and> pc (drun ex_env {''A'', ''B''} [ex_rec ''A'', ex_rec ''B'']
                [Main 0, Worker 0, Main 0, Main 0]) = Returned"
    by (simp add: main_steps_def)
  moreover from inst p n(1) have
    "main_step 0 (driver_init {''B''} [ex_rec ''A'', ex_rec ''B'']) =
       (if ''A'' \<in> img_ids (driver_init {''B''} [ex_rec ''A'', ex_rec ''B''])
        then (driver_init {''B''} [ex_rec ''A'', ex_rec ''B''])\<lparr>pc := Streaming [ex_rec ''B'']\<rparr>
        else (driver_init {''B''} [ex_rec ''A'', ex_rec ''B''])
               \<lparr>img_ids := insert ''A'' (img_ids (driver_init {''B''} [ex_rec ''A'', ex_rec ''B''])),
                workers := workers (driver_init {''B''} [ex_rec ''A'', ex_rec ''B''])
                             @ [(ex_rec ''A'', WPending)],
                pbar_total := pbar_total (driver_init {''B''} [ex_rec ''A'', ex_rec ''B'']) + 1,
                pc := Streaming [ex_rec ''B'']\<rparr>)"
    by blast
  then have "main_step 0 (driver_init {''B''} [ex_rec ''A'', ex_rec ''B''])
       = \<lparr>img_ids = {''A'', ''B''}, workers = [(ex_rec ''A'', WPending)], pbar_total = 1,
          pbar_n = 0, written = [], pc = Streaming [ex_rec ''B'']\<rparr>"
    by (simp add: driver_init_def)
  ultimately show ?thesis
    using n p by blast
qed

lemma fst_cancel: "fst (cancel t) = fst t"
  by (cases t rule: cancel.cases) simp_all

lemma worker_ids_abort: "worker_ids (abort e d) = worker_ids d"
  by (simp add: worker_ids_def abort_def fst_cancel)

lemma img_ids_abort: "img_ids (abort e d) = img_ids d"
  by (simp add: abort_def)

lemma worker_ids_update:
  "k < length (workers d) \<Longrightarrow> fst (workers d ! k) = it \<Longrightarrow>
   map (\<lambda>t. nasa_id (fst t)) ((workers d)[k := (it, st)]) = map (\<lambda>t. nasa_id (fst t)) (workers d)"
  by (simp add: list_eq_iff_nth_eq nth_list_update)

lemma worker_step_ids:
  "worker_ids (worker_step env k d) = worker_ids d \<and> img_ids (worker_step env k d) = img_ids d"
  by (auto simp: worker_step_def worker_ids_def worker_ids_update
           split: prod.splits wstatus.splits sum.splits)

lemma spawned_once_abort: "spawned_once ids d \<Longrightarrow> spawned_once ids (abort e d)"
  by (simp add: spawned_once_def worker_ids_abort img_ids_abort)

lemma spawned_once_pc: "spawned_once ids d \<Longrightarrow> spawned_once ids (d\<lparr>pc := p\<rparr>)"
  by (simp add: spawned_once_def worker_ids_def)

lemma spawned_once_spawn:
  assumes "spawned_once ids d" and "nasa_id it = Some i" and "i \<notin> img_ids d"
  shows "spawned_once ids (d\<lparr>img_ids := insert i (img_ids d),
                              workers := workers d @ [(it, WPending)],
                              pbar_total := n,
                              pc := p\<rparr>)"
  using assms unfolding spawned_once_def worker_ids_def
  by auto

lemma spawned_once_main: "spawned_once ids d \<Longrightarrow> spawned_once ids (main_step k d)"
proof (cases "pc d")
  case (Streaming rest)
  assume inv: "spawned_once ids d"
  show ?thesis
  proof (cases rest)
    case Nil
    with Streaming inv show ?thesis
      by (simp add: main_step_def spawned_once_pc)
  next
    case (Cons it rest')
    with Streaming inv show ?thesis
      by (cases "nasa_id it")
         (simp_all add: main_step_def spawned_once_abort spawned_once_pc spawned_once_spawn)
  qed
next
  case Joining
  assume "spawned_once ids d"
  with Joining show ?thesis
    by (simp add: main_step_def spawned_once_abort spawned_once_pc split: wstatus.splits)
qed (simp_all add: main_step_def)

lemma spawned_once_step: "spawned_once ids d \<Longrightarrow> spawned_once ids (dstep env a d)"
  by (cases a) (simp_all add: spawned_once_main, simp add: spawned_once_def worker_step_ids)

lemma spawned_once_dexec: "spawned_once ids d \<Longrightarrow> spawned_once ids (dexec env sched d)"
  by (induction sched arbitrary: d) (simp_all add: spawned_once_step)

text \<open>
  C10. Under every schedule and for every stream, also one that repeats identifiers, the
  workers created in a run have pairwise distinct identifiers, and each of them is in
  the in-memory set and was not in the set loaded at the start: the identifier is added
  before the worker is created, so a later occurrence is skipped.
\<close>

theorem one_worker_per_identifier:
  "distinct (worker_ids (drun env ids stream sched))
   \<and> set (worker_ids (drun env ids stream sched))
       \<subseteq> Some ` (img_ids (drun env ids stream sched) - ids)"
proof -
  have "spawned_once ids (driver_init ids stream)"
    by (simp add: spawned_once_def driver_init_def worker_ids_def)
  then have "spawned_once ids (drun env ids stream sched)"
    unfolding drun_def by (rule spawned_once_dexec)
  then show ?thesis
    by (simp add: spawned_once_def)
qed




section \<open>A detail document without a size tier\<close>





section \<open>The fetch pipeline under every schedule\<close>

subsection \<open>Histories and single steps\<close>

lemma puts_append [simp]: "puts (xs @ ys) = puts xs @ puts ys"
  by (induction xs rule: puts.induct) simp_all

lemma gets_append [simp]: "gets (xs @ ys) = gets xs @ gets ys"
  by (induction xs rule: gets.induct) simp_all

lemma spawns_append [simp]: "spawns (xs @ ys) = spawns xs @ spawns ys"
  by (induction xs rule: spawns.induct) simp_all

lemma exits_append [simp]: "exits (xs @ ys) = exits xs @ exits ys"
  by (induction xs rule: exits.induct) simp_all

lemma recs_append [simp]: "recs (xs @ ys) = recs xs @ recs ys"
  by (induction xs rule: recs.induct) simp_all

lemma recs_map_Rec [simp]: "recs (map Rec rs) = rs"
  by (induction rs) simp_all

lemma proj_map_ESpawn [simp]:
  "puts (map ESpawn ns) = []" "gets (map ESpawn ns) = []"
  "exits (map ESpawn ns) = []" "spawns (map ESpawn ns) = ns"
  by (induction ns) simp_all

lemma EPut_in_trace: "EPut v \<in> set tr \<longleftrightarrow> v \<in> set (puts tr)"
  by (induction tr rule: puts.induct) auto

lemma EGet_in_trace: "EGet v \<in> set tr \<longleftrightarrow> v \<in> set (gets tr)"
  by (induction tr rule: gets.induct) auto

lemma ESpawn_in_trace: "ESpawn k \<in> set tr \<longleftrightarrow> k \<in> set (spawns tr)"
  by (induction tr rule: spawns.induct) auto

lemma EExit_in_trace: "EExit k \<in> set tr \<longleftrightarrow> k \<in> set (exits tr)"
  by (induction tr rule: exits.induct) auto

lemma spawn_all_eq:
  "spawn_all its s =
     s\<lparr>tasks := tasks s @ map (\<lambda>it. (it, Pending)) its,
       trace := trace s @ map ESpawn [length (tasks s)..<length (tasks s) + length its]\<rparr>"
proof (induction its arbitrary: s)
  case Nil
  then show ?case by simp
next
  case (Cons it its)
  have "[n..<Suc (n + m)] = n # [Suc n..<Suc (n + m)]" for n m :: nat
    by (rule upt_conv_Cons) simp
  with Cons show ?case
    by (simp del: upt_Suc)
qed


lemma walker_step_cases [case_names idle leave raise page sentinel]:
  obtains
    "walker_step w k s = s"
  | np f where "walker s = Loop np f" "np = None \<or> np = Some []"
      "walker_step w k s = s\<lparr>walker := Gathering\<rparr>"
  | e where "walker s \<noteq> Finished" "walker_step w k s = s\<lparr>walker := Raised e\<rparr>"
  | url f pg where "walker s = Loop (Some url) f" "url \<noteq> []"
      "raise_for_status (search_api w url) = Inr pg"
      "walker_step w k s =
         s\<lparr>walker := Loop (next_link (links pg)) False,
           fetched := fetched s @ [pg],
           queue := queue s @ (if f then [Total (total_hits pg)] else []),
           tasks := tasks s @ map (\<lambda>it. (it, Pending)) (items pg),
           trace := trace s @ (if f then [EPut (Total (total_hits pg))] else [])
                    @ map ESpawn [length (tasks s)..<length (tasks s) + length (items pg)]\<rparr>"
  | "walker s = Gathering" "\<forall>t \<in> set (tasks s). snd t = Done"
      "walker_step w k s =
         s\<lparr>walker := Finished, queue := queue s @ [Sentinel],
           trace := trace s @ [EPut Sentinel]\<rparr>"
proof (cases "walker s")
  case (Loop np f)
  show ?thesis
  proof (cases "np = None \<or> np = Some []")
    case True
    with Loop have "walker_step w k s = s\<lparr>walker := Gathering\<rparr>"
      by (auto simp: walker_step_def)
    with Loop True show ?thesis
      using that(2) by blast
  next
    case False
    then obtain url where url: "np = Some url" "url \<noteq> []"
      by auto
    show ?thesis
    proof (cases "raise_for_status (search_api w url)")
      case (Inl e)
      with Loop url have "walker_step w k s = s\<lparr>walker := Raised e\<rparr>"
        by (simp add: walker_step_def)
      with Loop show ?thesis
        using that(3) by simp
    next
      case (Inr pg)
      with Loop url have "walker_step w k s =
         s\<lparr>walker := Loop (next_link (links pg)) False,
           fetched := fetched s @ [pg],
           queue := queue s @ (if f then [Total (total_hits pg)] else []),
           tasks := tasks s @ map (\<lambda>it. (it, Pending)) (items pg),
           trace := trace s @ (if f then [EPut (Total (total_hits pg))] else [])
                    @ map ESpawn [length (tasks s)..<length (tasks s) + length (items pg)]\<rparr>"
        by (simp add: walker_step_def spawn_all_eq put_def Let_def)
      with Loop url Inr show ?thesis
        using that(4) by simp
    qed
  qed
next
  case Gathering
  show ?thesis
  proof (cases "k < length (tasks s) \<and> is_failed (snd (tasks s ! k))")
    case True
    then obtain e where "snd (tasks s ! k) = Failed e"
      by (cases "snd (tasks s ! k)") auto
    with True Gathering have "walker_step w k s = s\<lparr>walker := Raised e\<rparr>"
      by (simp add: walker_step_def)
    with Gathering show ?thesis
      using that(3) by simp
  next
    case False
    then have nf: "(case (if k < length (tasks s) then snd (tasks s ! k) else Pending) of
                     Failed e \<Rightarrow> a e | _ \<Rightarrow> b) = b" for a :: "error \<Rightarrow> state" and b
      by (cases "snd (tasks s ! k)") auto
    show ?thesis
    proof (cases "\<forall>t \<in> set (tasks s). snd t = Done")
      case True
      with Gathering nf have "walker_step w k s =
         s\<lparr>walker := Finished, queue := queue s @ [Sentinel],
           trace := trace s @ [EPut Sentinel]\<rparr>"
        by (simp add: walker_step_def put_def)
      with Gathering True show ?thesis
        using that(5) by simp
    next
      case False
      with Gathering nf have "walker_step w k s = s"
        by (auto simp: walker_step_def)
      then show ?thesis
        using that(1) by simp
    qed
  qed
next
  case Finished
  then have "walker_step w k s = s"
    by (simp add: walker_step_def)
  then show ?thesis
    using that(1) by simp
next
  case (Raised e)
  then have "walker_step w k s = s"
    by (simp add: walker_step_def)
  then show ?thesis
    using that(1) by simp
qed

lemma fetcher_step_cases [case_names idle fail ok]:
  obtains
    "fetcher_step w k s = s"
  | it e where "k < length (tasks s)" "tasks s ! k = (it, Pending)" "get_item w it = Inl e"
      "fetcher_step w k s =
         s\<lparr>tasks := (tasks s)[k := (it, Failed e)], trace := trace s @ [EExit k]\<rparr>"
  | it r where "k < length (tasks s)" "tasks s ! k = (it, Pending)" "get_item w it = Inr r"
      "fetcher_step w k s =
         s\<lparr>tasks := (tasks s)[k := (it, Done)], queue := queue s @ [Rec r],
           trace := trace s @ [EPut (Rec r), EExit k]\<rparr>"
proof (cases "k < length (tasks s) \<and> snd (tasks s ! k) = Pending")
  case True
  then obtain it where it: "k < length (tasks s)" "tasks s ! k = (it, Pending)"
    by (cases "tasks s ! k") auto
  show ?thesis
  proof (cases "get_item w it")
    case (Inl e)
    with it show ?thesis
      using that(2) by (simp add: fetcher_step_def)
  next
    case (Inr r)
    with it show ?thesis
      using that(3) by (simp add: fetcher_step_def)
  qed
next
  case False
  then have "fetcher_step w k s = s"
    by (auto simp: fetcher_step_def split: prod.splits tstatus.splits)
  then show ?thesis
    using that(1) by simp
qed

lemma consumer_step_cases [case_names idle first stop deliver]:
  obtains
    "consumer_step s = s"
  | v q where "queue s = v # q" "iterator s = None"
      "consumer_step s = s\<lparr>queue := q, iterator := Some v, trace := trace s @ [EGet v]\<rparr>"
  | q t where "queue s = Sentinel # q" "iterator s = Some t"
      "consumer_step s =
         s\<lparr>queue := q, stops := stops s + 1, trace := trace s @ [EGet Sentinel, EStop]\<rparr>"
  | v q t where "queue s = v # q" "iterator s = Some t" "v \<noteq> Sentinel"
      "consumer_step s =
         s\<lparr>queue := q, delivered := delivered s @ [v], trace := trace s @ [EGet v]\<rparr>"
proof (cases "queue s")
  case Nil
  then show ?thesis
    using that(1) by (simp add: consumer_step_def)
next
  case (Cons v q)
  show ?thesis
  proof (cases "iterator s")
    case None
    with Cons show ?thesis
      using that(2) by (simp add: consumer_step_def)
  next
    case (Some t)
    show ?thesis
    proof (cases "v = Sentinel")
      case True
      with Cons Some show ?thesis
        using that(3) by (simp add: consumer_step_def)
    next
      case False
      with Cons Some show ?thesis
        using that(4) by (simp add: consumer_step_def)
    qed
  qed
qed


subsection \<open>Preservation\<close>

lemma inv_fifo_step: "inv_fifo s \<Longrightarrow> inv_fifo (step w a s)"
proof (cases a)
  case (Walker k)
  assume "inv_fifo s"
  then have "inv_fifo (walker_step w k s)"
    by (cases rule: walker_step_cases [of w k s]) (simp_all add: inv_fifo_def)
  with Walker show ?thesis by simp
next
  case (Fetcher k)
  assume "inv_fifo s"
  then have "inv_fifo (fetcher_step w k s)"
    by (cases rule: fetcher_step_cases [of w k s]) (simp_all add: inv_fifo_def)
  with Fetcher show ?thesis by simp
next
  case Consumer
  assume "inv_fifo s"
  then have "inv_fifo (consumer_step s)"
    by (cases rule: consumer_step_cases [of s]) (auto simp: inv_fifo_def)
  with Consumer show ?thesis by simp
qed

lemma map_fst_update:
  "k < length ts \<Longrightarrow> ts ! k = (it, st) \<Longrightarrow> map fst (ts[k := (it, st')]) = map fst ts"
  by (simp add: list_eq_iff_nth_eq nth_list_update)

lemma inv_tasks_step: "inv_tasks s \<Longrightarrow> inv_tasks (step w a s)"
proof (cases a)
  case (Walker k)
  assume "inv_tasks s"
  then have "inv_tasks (walker_step w k s)"
  proof (cases rule: walker_step_cases [of w k s])
    case (page url f pg)
    assume inv: "inv_tasks s"
    have "[0..<length (tasks s) + length (items pg)] =
            [0..<length (tasks s)] @ [length (tasks s)..<length (tasks s) + length (items pg)]"
      by (rule upt_add_eq_append) simp
    with inv page show ?thesis
      by (simp add: inv_tasks_def entries_def comp_def)
  qed (simp_all add: inv_tasks_def entries_def)
  with Walker show ?thesis by simp
next
  case (Fetcher k)
  assume "inv_tasks s"
  then have "inv_tasks (fetcher_step w k s)"
    by (cases rule: fetcher_step_cases [of w k s])
       (simp_all add: inv_tasks_def entries_def map_fst_update)
  with Fetcher show ?thesis by simp
next
  case Consumer
  assume "inv_tasks s"
  then have "inv_tasks (consumer_step s)"
    by (cases rule: consumer_step_cases [of s]) (simp_all add: inv_tasks_def entries_def)
  with Consumer show ?thesis by simp
qed

lemma inv_exits_step: "inv_exits s \<Longrightarrow> inv_exits (step w a s)"
proof (cases a)
  case (Walker k)
  assume "inv_exits s"
  then have "inv_exits (walker_step w k s)"
  proof (cases rule: walker_step_cases [of w k s])
    case (page url f pg)
    assume inv: "inv_exits s"
    have iff: "(k < length (tasks s) + length (items pg) \<and>
                snd ((tasks s @ map (\<lambda>it. (it, Pending)) (items pg)) ! k) \<noteq> Pending)
            \<longleftrightarrow> (k < length (tasks s) \<and> snd (tasks s ! k) \<noteq> Pending)" for k
    proof (cases "k < length (tasks s)")
      case True
      then show ?thesis by (simp add: nth_append)
    next
      case False
      then have "k - length (tasks s) < length (items pg)"
        if "k < length (tasks s) + length (items pg)"
        using that by arith
      with False show ?thesis by (auto simp: nth_append)
    qed
    have "{k. k < length (tasks s) + length (items pg) \<and>
              snd ((tasks s @ map (\<lambda>it. (it, Pending)) (items pg)) ! k) \<noteq> Pending}
          = {k. k < length (tasks s) \<and> snd (tasks s ! k) \<noteq> Pending}"
      by (simp only: iff)
    with inv page show ?thesis
      by (simp add: inv_exits_def)
  qed (simp_all add: inv_exits_def)
  with Walker show ?thesis by simp
next
  case (Fetcher k)
  assume "inv_exits s"
  then have "inv_exits (fetcher_step w k s)"
    by (cases rule: fetcher_step_cases [of w k s])
       (auto simp: inv_exits_def nth_list_update)
  with Fetcher show ?thesis by simp
next
  case Consumer
  assume "inv_exits s"
  then have "inv_exits (consumer_step s)"
    by (cases rule: consumer_step_cases [of s]) (simp_all add: inv_exits_def)
  with Consumer show ?thesis by simp
qed

lemma done_results_append_pending:
  "done_results w (ts @ map (\<lambda>it. (it, Pending)) its) = done_results w ts"
  by (induction its) (simp_all add: done_results_def)

lemma done_results_update:
  assumes "k < length ts" and "ts ! k = (it, Pending)"
  shows "done_results w (ts[k := (it, Failed e)]) = done_results w ts"
    and "done_results w (ts[k := (it, Done)]) = add_mset (get_item w it) (done_results w ts)"
  using assms by (simp_all add: done_results_def mset_update)

lemma inv_records_step: "inv_records w s \<Longrightarrow> inv_records w (step w a s)"
proof (cases a)
  case (Walker k)
  assume "inv_records w s"
  then have "inv_records w (walker_step w k s)"
    by (cases rule: walker_step_cases [of w k s])
       (simp_all add: inv_records_def done_results_append_pending)
  with Walker show ?thesis by simp
next
  case (Fetcher k)
  assume "inv_records w s"
  then have "inv_records w (fetcher_step w k s)"
    by (cases rule: fetcher_step_cases [of w k s])
       (simp_all add: inv_records_def done_results_update)
  with Fetcher show ?thesis by simp
next
  case Consumer
  assume "inv_records w s"
  then have "inv_records w (consumer_step s)"
    by (cases rule: consumer_step_cases [of s]) (simp_all add: inv_records_def)
  with Consumer show ?thesis by simp
qed


lemma search_url_nonempty: "search_url params \<noteq> []"
  by (simp add: search_url_def BASE_URL_def)

lemma trace_empty_queue: "inv_fifo s \<Longrightarrow> trace s = [] \<Longrightarrow> queue s = []"
  by (simp add: inv_fifo_def)

lemma pending_not_finished:
  assumes "inv_walker params s" and "k < length (tasks s)" and "tasks s ! k = (it, Pending)"
  shows "walker s \<noteq> Finished"
proof
  assume "walker s = Finished"
  with assms(1) have "\<forall>t \<in> set (tasks s). snd t = Done"
    by (simp add: inv_walker_def)
  moreover from assms(2) have "tasks s ! k \<in> set (tasks s)"
    by (rule nth_mem)
  ultimately show False
    using assms(3) by auto
qed

lemma pending_fetched:
  assumes "inv_first w params s" and "k < length (tasks s)"
  shows "fetched s \<noteq> []"
  using assms by (auto simp: inv_first_def)

lemma queue_fetched:
  assumes "inv_first w params s" and "inv_fifo s" and "queue s \<noteq> []"
  shows "fetched s \<noteq> []"
  using assms by (auto simp: inv_first_def inv_fifo_def)

lemma inv_first_extend:
  assumes "inv_first w params s" and "fetched s \<noteq> []"
    and "fetched s' = fetched s" and "trace s' = trace s @ es"
  shows "inv_first w params s'"
  using assms by (auto simp: inv_first_def split: list.splits)

lemma inv_first_step:
  assumes "inv_first w params s" and "inv_walker params s" and "inv_fifo s"
  shows "inv_first w params (step w a s)"
proof (cases a)
  case (Walker k)
  have "inv_first w params (walker_step w k s)"
  proof (cases rule: walker_step_cases [of w k s])
    case (page url f pg)
    show ?thesis
    proof (cases f)
      case True
      with page assms(2) have u: "url = search_url params" "fetched s = []"
        by (simp_all add: inv_walker_def)
      with assms(1) have "trace s = []" "tasks s = []"
        by (simp_all add: inv_first_def)
      moreover from page(3) u have "pg = json (search_api w (search_url params))"
        by (simp add: raise_for_status_def split: if_splits)
      ultimately show ?thesis
        using page u True by (simp add: inv_first_def)
    next
      case False
      with page assms(2) have "fetched s \<noteq> []"
        by (simp add: inv_walker_def)
      with assms(1) page False show ?thesis
        by (auto simp: inv_first_def split: list.splits)
    qed
  next
    case sentinel
    with assms(2) have "fetched s \<noteq> []"
      by (simp add: inv_walker_def)
    then show ?thesis
      by (rule inv_first_extend [OF assms(1), where es = "[EPut Sentinel]"])
         (simp_all add: sentinel(3))
  qed (use assms(1) in \<open>auto simp: inv_first_def split: list.splits\<close>)
  with Walker show ?thesis by simp
next
  case (Fetcher k)
  have "inv_first w params (fetcher_step w k s)"
  proof (cases rule: fetcher_step_cases [of w k s])
    case idle
    with assms(1) show ?thesis by simp
  next
    case (fail it e)
    from pending_fetched [OF assms(1) fail(1)] show ?thesis
      by (rule inv_first_extend [OF assms(1), where es = "[EExit k]"])
         (simp_all add: fail(4))
  next
    case (ok it r)
    from pending_fetched [OF assms(1) ok(1)] show ?thesis
      by (rule inv_first_extend [OF assms(1), where es = "[EPut (Rec r), EExit k]"])
         (simp_all add: ok(4))
  qed
  with Fetcher show ?thesis by simp
next
  case Consumer
  have "inv_first w params (consumer_step s)"
  proof (cases rule: consumer_step_cases [of s])
    case idle
    with assms(1) show ?thesis by simp
  next
    case (first v q)
    then have "queue s \<noteq> []"
      by simp
    then have "fetched s \<noteq> []"
      by (rule queue_fetched [OF assms(1) assms(3)])
    then show ?thesis
      by (rule inv_first_extend [OF assms(1), where es = "[EGet v]"])
         (simp_all add: first(3))
  next
    case (stop q t)
    then have "queue s \<noteq> []"
      by simp
    then have "fetched s \<noteq> []"
      by (rule queue_fetched [OF assms(1) assms(3)])
    then show ?thesis
      by (rule inv_first_extend [OF assms(1), where es = "[EGet Sentinel, EStop]"])
         (simp_all add: stop(3))
  next
    case (deliver v q t)
    then have "queue s \<noteq> []"
      by simp
    then have "fetched s \<noteq> []"
      by (rule queue_fetched [OF assms(1) assms(3)])
    then show ?thesis
      by (rule inv_first_extend [OF assms(1), where es = "[EGet v]"])
         (simp_all add: deliver(4))
  qed
  with Consumer show ?thesis by simp
qed


lemma inv_shape_same:
  assumes "inv_shape s" and "puts (trace s') = puts (trace s)" and "fetched s' = fetched s"
    and "walker s' = Finished \<longleftrightarrow> walker s = Finished"
  shows "inv_shape s'"
proof -
  have "total_part s' = total_part s" "sentinel_part s' = sentinel_part s"
    using assms(3,4) by (simp_all add: total_part_def sentinel_part_def)
  with assms(1,2) show ?thesis
    unfolding inv_shape_def by (simp only:)
qed

lemma inv_shape_put:
  assumes "inv_shape s" and "walker s \<noteq> Finished"
    and "puts (trace s') = puts (trace s) @ [v]" and "fetched s' = fetched s"
    and "v = Sentinel \<and> walker s' = Finished \<or> (\<exists>r. v = Rec r) \<and> walker s' \<noteq> Finished"
  shows "inv_shape s'"
proof -
  from assms(1,2) have eq: "puts (trace s) = total_part s @ map Rec (recs (puts (trace s)))"
    by (simp add: inv_shape_def sentinel_part_def)
  have tp: "total_part s' = total_part s"
    using assms(4) by (simp add: total_part_def)
  from eq have "puts (trace s) @ [v] = (total_part s @ map Rec (recs (puts (trace s)))) @ [v]"
    by (rule arg_cong)
  with assms(3) have p: "puts (trace s') = total_part s @ map Rec (recs (puts (trace s))) @ [v]"
    by simp
  from assms(5) show ?thesis
  proof
    assume "v = Sentinel \<and> walker s' = Finished"
    with p tp assms(3) show ?thesis
      by (simp add: inv_shape_def sentinel_part_def)
  next
    assume "(\<exists>r. v = Rec r) \<and> walker s' \<noteq> Finished"
    with p tp assms(3) show ?thesis
      by (auto simp: inv_shape_def sentinel_part_def)
  qed
qed

lemma no_sentinel:
  assumes "inv_shape s" and "walker s \<noteq> Finished"
  shows "Sentinel \<notin> set (puts (trace s))"
proof -
  from assms have "puts (trace s) = total_part s @ map Rec (recs (puts (trace s)))"
    by (simp add: inv_shape_def sentinel_part_def)
  then have "set (puts (trace s)) = set (total_part s @ map Rec (recs (puts (trace s))))"
    by (rule arg_cong)
  then show ?thesis
    by (auto simp: total_part_def split: list.splits)
qed

lemma inv_shape_step:
  assumes "inv_shape s" and "inv_walker params s" and "inv_first w params s"
  shows "inv_shape (step w a s)"
proof (cases a)
  case (Walker k)
  have "inv_shape (walker_step w k s)"
  proof (cases rule: walker_step_cases [of w k s])
    case idle
    with assms(1) show ?thesis by simp
  next
    case (leave np f)
    show ?thesis
      by (rule inv_shape_same [OF assms(1)]) (simp_all add: leave)
  next
    case (raise e)
    show ?thesis
      by (rule inv_shape_same [OF assms(1)]) (simp_all add: raise)
  next
    case (page url f pg)
    show ?thesis
    proof (cases f)
      case True
      with page assms(2) have "fetched s = []"
        by (simp add: inv_walker_def)
      with assms(3) have "trace s = []"
        by (simp add: inv_first_def)
      with page True \<open>fetched s = []\<close> show ?thesis
        by (simp add: inv_shape_def total_part_def sentinel_part_def)
    next
      case False
      with page assms(2) have "fetched s \<noteq> []"
        by (simp add: inv_walker_def)
      then have "total_part (walker_step w k s) = total_part s"
        by (cases "fetched s") (simp_all add: page total_part_def)
      moreover have "sentinel_part (walker_step w k s) = sentinel_part s"
        by (simp add: page sentinel_part_def)
      moreover have "puts (trace (walker_step w k s)) = puts (trace s)"
        by (simp add: page False)
      ultimately show ?thesis
        using assms(1) unfolding inv_shape_def by (simp only:)
    qed
  next
    case sentinel
    show ?thesis
      by (rule inv_shape_put [OF assms(1), where v = Sentinel]) (simp_all add: sentinel)
  qed
  with Walker show ?thesis by simp
next
  case (Fetcher k)
  have "inv_shape (fetcher_step w k s)"
  proof (cases rule: fetcher_step_cases [of w k s])
    case idle
    with assms(1) show ?thesis by simp
  next
    case (fail it e)
    show ?thesis
      by (rule inv_shape_same [OF assms(1)]) (simp_all add: fail)
  next
    case (ok it r)
    have nf: "walker s \<noteq> Finished"
      using assms(2) ok(1,2) by (rule pending_not_finished)
    show ?thesis
      by (rule inv_shape_put [OF assms(1) nf, where v = "Rec r"]) (simp_all add: ok nf)
  qed
  with Fetcher show ?thesis by simp
next
  case Consumer
  have "inv_shape (consumer_step s)"
  proof (cases rule: consumer_step_cases [of s])
    case idle
    with assms(1) show ?thesis by simp
  next
    case (first v q)
    show ?thesis
      by (rule inv_shape_same [OF assms(1)]) (simp_all add: first)
  next
    case (stop q t)
    show ?thesis
      by (rule inv_shape_same [OF assms(1)]) (simp_all add: stop)
  next
    case (deliver v q t)
    show ?thesis
      by (rule inv_shape_same [OF assms(1)]) (simp_all add: deliver)
  qed
  with Consumer show ?thesis by simp
qed


lemma sentinel_split_extend:
  assumes "sentinel_split s" and "trace s' = trace s @ es" and "tasks s' = tasks s"
    and "spawns es = []" and "exits es = []" and "puts es = []"
  shows "sentinel_split s'"
proof -
  from assms(1) obtain pre post where
    "trace s = pre @ EPut Sentinel # post" "Sentinel \<notin> set (puts pre)"
    "set (exits pre) = {0..<length (tasks s)}"
    "spawns post = []" "exits post = []" "puts post = []"
    unfolding sentinel_split_def by blast
  with assms(2-) have
    "trace s' = pre @ EPut Sentinel # (post @ es) \<and> Sentinel \<notin> set (puts pre)
     \<and> set (exits pre) = {0..<length (tasks s')}
     \<and> spawns (post @ es) = [] \<and> exits (post @ es) = [] \<and> puts (post @ es) = []"
    by simp
  then show ?thesis
    unfolding sentinel_split_def by blast
qed

lemma inv_walker_same:
  assumes "inv_walker params s" and "walker s' = walker s" and "fetched s' = fetched s"
    and "tasks s' = tasks s \<or> walker s \<noteq> Finished"
    and "trace s' = trace s @ es" and "spawns es = []" and "exits es = []" and "puts es = []"
  shows "inv_walker params s'"
proof (cases "walker s = Finished")
  case True
  with assms(4) have t: "tasks s' = tasks s"
    by simp
  from True assms(1) have "sentinel_split s"
    by (simp add: inv_walker_def)
  then have "sentinel_split s'"
    using assms(5) t assms(6-8) by (rule sentinel_split_extend)
  with True assms(1,2,3) t show ?thesis
    by (simp add: inv_walker_def)
next
  case False
  with assms(1,2,3) show ?thesis
    by (cases "walker s") (simp_all add: inv_walker_def)
qed

lemma inv_walker_step:
  assumes "inv_walker params s" and "inv_shape s" and "inv_exits s"
  shows "inv_walker params (step w a s)"
proof (cases a)
  case (Walker k)
  have "inv_walker params (walker_step w k s)"
  proof (cases rule: walker_step_cases [of w k s])
    case idle
    with assms(1) show ?thesis by simp
  next
    case (leave np f)
    with assms(1) have "fetched s \<noteq> []"
      by (cases f) (auto simp: inv_walker_def search_url_nonempty)
    with leave show ?thesis
      by (simp add: inv_walker_def)
  next
    case (raise e)
    then show ?thesis
      by (simp add: inv_walker_def)
  next
    case (page url f pg)
    then show ?thesis
      by (simp add: inv_walker_def)
  next
    case sentinel
    with assms(1) have f: "fetched s \<noteq> []"
      by (simp add: inv_walker_def)
    from sentinel assms(2) have ns: "Sentinel \<notin> set (puts (trace s))"
      by (intro no_sentinel) simp_all
    have "snd (tasks s ! k) \<noteq> Pending" if "k < length (tasks s)" for k
      using sentinel(2) nth_mem [OF that] by auto
    with assms(3) have ex: "set (exits (trace s)) = {0..<length (tasks s)}"
      by (auto simp: inv_exits_def)
    have "trace (walker_step w k s) = trace s @ EPut Sentinel # []
          \<and> Sentinel \<notin> set (puts (trace s))
          \<and> set (exits (trace s)) = {0..<length (tasks (walker_step w k s))}
          \<and> spawns [] = [] \<and> exits [] = [] \<and> puts [] = []"
      using ns ex by (simp add: sentinel(3))
    then have "sentinel_split (walker_step w k s)"
      unfolding sentinel_split_def by blast
    with f sentinel show ?thesis
      by (simp add: inv_walker_def)
  qed
  with Walker show ?thesis by simp
next
  case (Fetcher k)
  have "inv_walker params (fetcher_step w k s)"
  proof (cases rule: fetcher_step_cases [of w k s])
    case idle
    with assms(1) show ?thesis by simp
  next
    case (fail it e)
    have nf: "walker s \<noteq> Finished"
      using assms(1) fail(1,2) by (rule pending_not_finished)
    with assms(1) show ?thesis
      by (cases "walker s") (simp_all add: inv_walker_def fail(4))
  next
    case (ok it r)
    have nf: "walker s \<noteq> Finished"
      using assms(1) ok(1,2) by (rule pending_not_finished)
    with assms(1) show ?thesis
      by (cases "walker s") (simp_all add: inv_walker_def ok(4))
  qed
  with Fetcher show ?thesis by simp
next
  case Consumer
  have "inv_walker params (consumer_step s)"
  proof (cases rule: consumer_step_cases [of s])
    case idle
    with assms(1) show ?thesis by simp
  next
    case (first v q)
    show ?thesis
      by (rule inv_walker_same [OF assms(1), where es = "[EGet v]"]) (simp_all add: first)
  next
    case (stop q t)
    show ?thesis
      by (rule inv_walker_same [OF assms(1), where es = "[EGet Sentinel, EStop]"])
         (simp_all add: stop)
  next
    case (deliver v q t)
    show ?thesis
      by (rule inv_walker_same [OF assms(1), where es = "[EGet v]"]) (simp_all add: deliver)
  qed
  with Consumer show ?thesis by simp
qed


lemma iterator_total:
  assumes "inv_fifo s" and "inv_shape s" and "inv_first w params s" and "inv_consumer s"
    and "iterator s = Some t"
  shows "\<exists>pg pgs. fetched s = pg # pgs \<and> pg = json (search_api w (search_url params))
           \<and> t = Total (total_hits pg)"
proof -
  from assms(4,5) obtain gs where gs: "gets (trace s) = t # gs"
    by (auto simp: inv_consumer_def opt_def)
  then have "trace s \<noteq> []"
    by auto
  with assms(3) obtain pg pgs where pg: "fetched s = pg # pgs"
    "pg = json (search_api w (search_url params))"
    by (cases "fetched s") (auto simp: inv_first_def)
  then have "total_part s = [Total (total_hits pg)]"
    by (simp add: total_part_def)
  with assms(2) obtain ps where "puts (trace s) = Total (total_hits pg) # ps"
    by (auto simp: inv_shape_def)
  with assms(1) gs have "t = Total (total_hits pg)"
    by (simp add: inv_fifo_def)
  with pg show ?thesis
    by blast
qed

lemma sentinel_in_puts_finished:
  assumes "inv_shape s" and "Sentinel \<in> set (puts (trace s))"
  shows "walker s = Finished"
  using assms no_sentinel by blast

lemma unique_last:
  assumes "xs @ a # [] = ys @ a # q" and "a \<notin> set xs"
  shows "q = []"
  using append_Cons_eq_iff [of a xs "[]" ys q] assms by simp

lemma sentinel_is_last:
  assumes "inv_fifo s" and "inv_shape s" and "queue s = Sentinel # q"
    and "Sentinel \<notin> set (gets (trace s))"
  shows "q = []"
proof -
  from assms(1,3) have p: "puts (trace s) = gets (trace s) @ Sentinel # q"
    by (simp add: inv_fifo_def)
  then have "Sentinel \<in> set (puts (trace s))"
    by simp
  with assms(2) have "walker s = Finished"
    by (rule sentinel_in_puts_finished)
  with assms(2) have
    "puts (trace s) = (total_part s @ map Rec (recs (puts (trace s)))) @ Sentinel # []"
    by (simp add: inv_shape_def sentinel_part_def)
  from this [symmetric] p
  have "(total_part s @ map Rec (recs (puts (trace s)))) @ Sentinel # []
                 = gets (trace s) @ Sentinel # q"
    by (rule trans)
  moreover have "Sentinel \<notin> set (total_part s @ map Rec (recs (puts (trace s))))"
    by (auto simp: total_part_def split: list.splits)
  ultimately show ?thesis
    by (rule unique_last)
qed

lemma stopped_finished:
  assumes "inv_fifo s" and "inv_shape s" and "inv_consumer s" and "0 < stops s"
  shows "walker s = Finished"
proof -
  from assms(3,4) have "Sentinel \<in> set (gets (trace s))"
    by (auto simp: inv_consumer_def)
  moreover from assms(1) have "set (puts (trace s)) = set (gets (trace s) @ queue s)"
    by (simp add: inv_fifo_def)
  ultimately have "Sentinel \<in> set (puts (trace s))"
    by simp
  with assms(2) show ?thesis
    by (rule sentinel_in_puts_finished)
qed

lemma inv_consumer_same:
  assumes "inv_consumer s" and "gets (trace s') = gets (trace s)"
    and "iterator s' = iterator s" and "delivered s' = delivered s" and "stops s' = stops s"
    and "queue s' = queue s \<or> stops s = 0"
  shows "inv_consumer s'"
  using assms by (auto simp: inv_consumer_def)

lemma inv_consumer_step:
  assumes "invariant w params s"
  shows "inv_consumer (step w a s)"
proof -
  from assms have fifo: "inv_fifo s" and shape: "inv_shape s" and walk: "inv_walker params s"
    and first: "inv_first w params s" and cons: "inv_consumer s"
    by (simp_all add: invariant_def)
  have live: "stops s = 0" if "walker s \<noteq> Finished"
    using stopped_finished [OF fifo shape cons] that by auto
  show ?thesis
  proof (cases a)
    case (Walker k)
    have "inv_consumer (walker_step w k s)"
    proof (cases rule: walker_step_cases [of w k s])
      case idle
      with cons show ?thesis by simp
    next
      case (leave np f)
      show ?thesis
        by (rule inv_consumer_same [OF cons]) (simp_all add: leave)
    next
      case (raise e)
      show ?thesis
        by (rule inv_consumer_same [OF cons]) (simp_all add: raise)
    next
      case (page url f pg)
      then have "stops s = 0"
        by (intro live) simp
      then show ?thesis
        by (intro inv_consumer_same [OF cons]) (simp_all add: page)
    next
      case sentinel
      then have "stops s = 0"
        by (intro live) simp
      then show ?thesis
        by (intro inv_consumer_same [OF cons]) (simp_all add: sentinel)
    qed
    with Walker show ?thesis by simp
  next
    case (Fetcher k)
    have "inv_consumer (fetcher_step w k s)"
    proof (cases rule: fetcher_step_cases [of w k s])
      case idle
      with cons show ?thesis by simp
    next
      case (fail it e)
      show ?thesis
        by (rule inv_consumer_same [OF cons]) (simp_all add: fail)
    next
      case (ok it r)
      have "walker s \<noteq> Finished"
        using walk ok(1,2) by (rule pending_not_finished)
      then have "stops s = 0"
        by (rule live)
      then show ?thesis
        by (intro inv_consumer_same [OF cons]) (simp_all add: ok)
    qed
    with Fetcher show ?thesis by simp
  next
    case Consumer
    have "inv_consumer (consumer_step s)"
    proof (cases rule: consumer_step_cases [of s])
      case idle
      with cons show ?thesis by simp
    next
      case (first v q)
      with cons show ?thesis
        by (simp add: inv_consumer_def opt_def)
    next
      case (stop q t)
      from stop(1) cons have st: "stops s = 0"
        by (auto simp: inv_consumer_def)
      from iterator_total [OF fifo shape first cons stop(2)] have "t \<noteq> Sentinel"
        by auto
      with cons st stop(2) have "Sentinel \<notin> set (gets (trace s))"
        by (simp add: inv_consumer_def opt_def)
      with fifo shape stop(1) have "q = []"
        by (rule sentinel_is_last)
      with cons st stop show ?thesis
        by (simp add: inv_consumer_def opt_def)
    next
      case (deliver v q t)
      from deliver(1) cons have st: "stops s = 0"
        by (auto simp: inv_consumer_def)
      with cons deliver show ?thesis
        by (simp add: inv_consumer_def opt_def)
    qed
    with Consumer show ?thesis by simp
  qed
qed

lemma invariant_step:
  assumes "invariant w params s"
  shows "invariant w params (step w a s)"
proof -
  from assms have fifo: "inv_fifo s" and tasks: "inv_tasks s" and exits: "inv_exits s"
    and records: "inv_records w s" and shape: "inv_shape s" and walk: "inv_walker params s"
    and first: "inv_first w params s"
    by (simp_all add: invariant_def)
  note inv_fifo_step [OF fifo, of w a] inv_tasks_step [OF tasks, of w a]
    inv_exits_step [OF exits, of w a] inv_records_step [OF records, of a]
    inv_shape_step [OF shape walk first, of a] inv_walker_step [OF walk shape exits, of w a]
    inv_first_step [OF first walk fifo, of a] inv_consumer_step [OF assms, of a]
  then show ?thesis
    by (simp add: invariant_def)
qed

lemma invariant_init: "invariant w params (init params)"
  by (simp add: invariant_def init_def inv_fifo_def inv_tasks_def entries_def inv_exits_def
        inv_records_def done_results_def inv_shape_def total_part_def sentinel_part_def
        inv_walker_def inv_first_def inv_consumer_def opt_def)

lemma invariant_exec: "invariant w params s \<Longrightarrow> invariant w params (exec w sched s)"
  by (induction sched arbitrary: s) (simp_all add: invariant_step)

lemma invariant_run: "invariant w params (run w params sched)"
  unfolding run_def by (rule invariant_exec) (rule invariant_init)

lemma exec_append: "exec w (xs @ ys) s = exec w ys (exec w xs s)"
  by (induction xs arbitrary: s) simp_all

lemma run_append: "run w params (xs @ ys) = exec w ys (run w params xs)"
  by (simp add: run_def exec_append)

lemma invariantD:
  assumes "invariant w params s"
  shows "inv_fifo s" "inv_tasks s" "inv_exits s" "inv_records w s" "inv_shape s"
    "inv_walker params s" "inv_first w params s" "inv_consumer s"
  using assms by (simp_all add: invariant_def)

lemma count_map_Rec: "count_list (map Rec rs) Sentinel = 0"
  by (induction rs) simp_all

lemma count_total_part: "count_list (total_part s) Sentinel = 0"
  by (simp add: total_part_def split: list.splits)

lemma sentinel_count:
  assumes "inv_shape s"
  shows "count_list (puts (trace s)) Sentinel = (if walker s = Finished then 1 else 0)"
proof -
  from assms have "count_list (puts (trace s)) Sentinel =
      count_list (total_part s @ map Rec (recs (puts (trace s))) @ sentinel_part s) Sentinel"
    unfolding inv_shape_def by (rule arg_cong)
  then show ?thesis
    by (simp add: count_map_Rec count_total_part sentinel_part_def)
qed

lemma quiescent_step:
  assumes "invariant w params s" and "0 < stops s"
  shows "step w a s = s"
proof -
  note inv = invariantD [OF assms(1)]
  have fin: "walker s = Finished"
    using inv(1,5,8) assms(2) by (rule stopped_finished)
  from inv(8) assms(2) have q: "queue s = []"
    by (simp add: inv_consumer_def)
  show ?thesis
  proof (cases a)
    case (Walker k)
    with fin show ?thesis
      by (simp add: walker_step_def)
  next
    case (Fetcher k)
    have "fetcher_step w k s = s"
    proof (cases rule: fetcher_step_cases [of w k s])
      case (fail it e)
      with pending_not_finished [OF inv(6) fail(1,2)] fin show ?thesis
        by simp
    next
      case (ok it r)
      with pending_not_finished [OF inv(6) ok(1,2)] fin show ?thesis
        by simp
    qed
    with Fetcher show ?thesis by simp
  next
    case Consumer
    with q show ?thesis
      by (simp add: consumer_step_def)
  qed
qed

lemma quiescent_exec:
  assumes "invariant w params s" and "0 < stops s"
  shows "exec w sched s = s"
  by (induction sched) (simp_all add: quiescent_step [OF assms])

lemma sentinel_after_tasks:
  assumes inv: "invariant w params s" and tr: "trace s = pre @ EPut Sentinel # post"
  shows "walker s = Finished \<and> (\<forall>t \<in> set (tasks s). snd t = Done)
         \<and> EPut Sentinel \<notin> set pre \<and> EPut Sentinel \<notin> set post
         \<and> (\<forall>k. ESpawn k \<in> set (trace s) \<longrightarrow> ESpawn k \<in> set pre \<and> EExit k \<in> set pre)
         \<and> (\<forall>k. ESpawn k \<notin> set post \<and> EExit k \<notin> set post)"
proof -
  note i = invariantD [OF inv]
  from tr have "Sentinel \<in> set (puts (trace s))"
    by simp
  with i(5) have fin: "walker s = Finished"
    by (rule sentinel_in_puts_finished)
  with i(6) have allDone: "\<forall>t \<in> set (tasks s). snd t = Done" and "sentinel_split s"
    by (simp_all add: inv_walker_def)
  then obtain pre' post' where sp:
    "trace s = pre' @ EPut Sentinel # post'" "Sentinel \<notin> set (puts pre')"
    "set (exits pre') = {0..<length (tasks s)}"
    "spawns post' = []" "exits post' = []" "puts post' = []"
    unfolding sentinel_split_def by blast
  have "EPut Sentinel \<notin> set pre'" "EPut Sentinel \<notin> set post'"
    using sp(2,6) by (simp_all add: EPut_in_trace)
  moreover from sp(1) tr have "pre' @ EPut Sentinel # post' = pre @ EPut Sentinel # post"
    by simp
  ultimately have eq: "pre' = pre" "post' = post"
    by (simp_all add: append_Cons_eq_iff)
  have spawn: "ESpawn k \<in> set pre \<and> EExit k \<in> set pre" if "ESpawn k \<in> set (trace s)" for k
  proof -
    from that i(2) have "k < length (tasks s)"
      by (simp add: ESpawn_in_trace inv_tasks_def)
    with sp(3) eq have "EExit k \<in> set pre"
      by (simp add: EExit_in_trace)
    moreover from sp(4) eq have "ESpawn k \<notin> set post"
      by (simp add: ESpawn_in_trace)
    with that tr have "ESpawn k \<in> set pre"
      by auto
    ultimately show ?thesis
      by simp
  qed
  have "ESpawn k \<notin> set post \<and> EExit k \<notin> set post" for k
    using sp(4,5) eq by (simp add: ESpawn_in_trace EExit_in_trace)
  with fin allDone spawn \<open>EPut Sentinel \<notin> set pre'\<close> \<open>EPut Sentinel \<notin> set post'\<close> eq
  show ?thesis
    by blast
qed

lemma consumer_view:
  assumes inv: "invariant w params s"
  shows "gets (trace s) = opt (iterator s) @ delivered s @ replicate (stops s) Sentinel"
    and "Sentinel \<notin> set (opt (iterator s) @ delivered s)"
    and "stops s \<le> 1"
proof -
  note i = invariantD [OF inv]
  from i(8) show "gets (trace s) = opt (iterator s) @ delivered s @ replicate (stops s) Sentinel"
    by (simp add: inv_consumer_def)
  have "t \<noteq> Sentinel" if "iterator s = Some t" for t
    using iterator_total [OF i(1,5,7,8) that] by auto
  with i(8) show "Sentinel \<notin> set (opt (iterator s) @ delivered s)"
    by (auto simp: inv_consumer_def opt_def split: option.splits)
  from i(8) show "stops s \<le> 1"
    by (cases "stops s") (simp_all add: inv_consumer_def)
qed

subsection \<open>The example runs\<close>

lemma search_ex:
  "raise_for_status (search_api ex_world (search_url ''q=dock'')) =
     Inr \<lparr>total_hits = 3, items = [ex_item ''A'', ex_item ''B''], links = [(''next'', ''page2'')]\<rparr>"
  "raise_for_status (search_api ex_world ''page2'') =
     Inr \<lparr>total_hits = 3, items = [ex_item ''C''], links = [(''prev'', search_url ''q=dock'')]\<rparr>"
  by (simp_all add: ex_world_def ex_search_def raise_for_status_def search_url_def BASE_URL_def)

lemma ex_search_json:
  "json (ex_search (search_url ''q=dock'')) =
     \<lparr>total_hits = 3, items = [ex_item ''A'', ex_item ''B''], links = [(''next'', ''page2'')]\<rparr>"
  "json (ex_search ''page2'') =
     \<lparr>total_hits = 3, items = [ex_item ''C''], links = [(''prev'', search_url ''q=dock'')]\<rparr>"
  by (simp_all add: ex_search_def search_url_def BASE_URL_def)

lemma run_ex: "run ex_world ''q=dock'' ex_sched = ex_final"
  by (simp add: run_def init_def ex_sched_def walker_step_def fetcher_step_def
        consumer_step_def search_ex get_item_ex put_def next_link_def search_url_nonempty
        ex_final_def ex_trace_pre_def ex_trace_post_def ex_search_json Let_def)







section \<open>The sentinel\<close>

text \<open>
  C1. In every run, under every schedule: the sentinel is put exactly once when
  \<open>_get_pages\<close> returns and never otherwise; where it stands in the history, every
  item task created in the run was created and has ended before it, and nothing is
  created or ended after it; the values the consumer received are the total, then the
  delivered values, then the sentinel at most once and last, on which the iterator
  stopped; and once the iterator has stopped no step of any task changes the state, so
  nothing further is delivered.
\<close>

theorem sentinel_once_after_tasks_and_last:
  assumes "s = run w params sched"
  shows "count_list (puts (trace s)) Sentinel = (if walker s = Finished then 1 else 0)
         \<and> (\<forall>pre post. trace s = pre @ EPut Sentinel # post \<longrightarrow>
               walker s = Finished \<and> (\<forall>t \<in> set (tasks s). snd t = Done)
               \<and> (\<forall>k. ESpawn k \<in> set (trace s) \<longrightarrow> ESpawn k \<in> set pre \<and> EExit k \<in> set pre)
               \<and> (\<forall>k. ESpawn k \<notin> set post \<and> EExit k \<notin> set post))
         \<and> gets (trace s) = opt (iterator s) @ delivered s @ replicate (stops s) Sentinel
         \<and> Sentinel \<notin> set (opt (iterator s) @ delivered s)
         \<and> stops s \<le> 1
         \<and> (0 < stops s \<longrightarrow> run w params (sched @ sched') = s)"
proof -
  have inv: "invariant w params s"
    unfolding assms by (rule invariant_run)
  have c: "count_list (puts (trace s)) Sentinel = (if walker s = Finished then 1 else 0)"
    using invariantD(5) [OF inv] by (rule sentinel_count)
  have a: "walker s = Finished \<and> (\<forall>t \<in> set (tasks s). snd t = Done)
           \<and> (\<forall>k. ESpawn k \<in> set (trace s) \<longrightarrow> ESpawn k \<in> set pre \<and> EExit k \<in> set pre)
           \<and> (\<forall>k. ESpawn k \<notin> set post \<and> EExit k \<notin> set post)"
    if "trace s = pre @ EPut Sentinel # post" for pre post
    using sentinel_after_tasks [OF inv that] by blast
  have q: "run w params (sched @ sched') = s" if "0 < stops s"
    using quiescent_exec [OF inv that] by (simp add: run_append assms [symmetric])
  from c a q consumer_view [OF inv] show ?thesis
    by blast
qed

theorem sentinel_once_after_tasks_and_last_witness:
  "trace (run ex_world ''q=dock'' ex_sched) = ex_trace_pre @ EPut Sentinel # ex_trace_post
   \<and> 0 < stops (run ex_world ''q=dock'' ex_sched)
   \<and> walker (run ex_world ''q=dock'' ex_sched) = Finished
   \<and> count_list (puts (trace (run ex_world ''q=dock'' ex_sched))) Sentinel = 1
   \<and> ESpawn 2 \<in> set (trace (run ex_world ''q=dock'' ex_sched))
   \<and> ESpawn 2 \<in> set ex_trace_pre \<and> EExit 2 \<in> set ex_trace_pre
   \<and> run ex_world ''q=dock'' (ex_sched @ [Consumer, Fetcher 0, Walker 0])
       = run ex_world ''q=dock'' ex_sched"
proof -
  have tr: "trace (run ex_world ''q=dock'' ex_sched)
              = ex_trace_pre @ EPut Sentinel # ex_trace_post"
    by (simp add: run_ex ex_final_def)
  have st: "0 < stops (run ex_world ''q=dock'' ex_sched)"
    by (simp add: run_ex ex_final_def)
  have sp: "ESpawn 2 \<in> set (trace (run ex_world ''q=dock'' ex_sched))"
    by (simp add: run_ex ex_final_def ex_trace_pre_def)
  note inst = sentinel_once_after_tasks_and_last [OF refl, of ex_world "''q=dock''" ex_sched
      "[Consumer, Fetcher 0, Walker 0]"]
  from inst tr have fin: "walker (run ex_world ''q=dock'' ex_sched) = Finished"
    by blast
  from inst tr sp have "ESpawn 2 \<in> set ex_trace_pre \<and> EExit 2 \<in> set ex_trace_pre"
    by blast
  moreover from inst fin
  have "count_list (puts (trace (run ex_world ''q=dock'' ex_sched))) Sentinel = 1"
    by simp
  moreover from inst st
  have "run ex_world ''q=dock'' (ex_sched @ [Consumer, Fetcher 0, Walker 0])
          = run ex_world ''q=dock'' ex_sched"
    by blast
  ultimately show ?thesis
    using tr st sp fin by blast
qed

section \<open>The total\<close>

text \<open>
  C2. In every run the first event of all is the put of \<open>total_hits\<close> of the first
  page, so it precedes the creation of every item task; the value \<open>search\<close> takes off
  the queue before it returns the iterator is that total, and it is the first value
  received; nothing is delivered before the iterator exists.
\<close>

theorem total_is_first:
  assumes "s = run w params sched"
  shows "(trace s \<noteq> [] \<longrightarrow>
            (\<exists>pgs rest. fetched s = json (search_api w (search_url params)) # pgs
               \<and> trace s = EPut (Total (total_hits (json (search_api w (search_url params))))) # rest))
         \<and> (\<forall>pre k post. trace s = pre @ ESpawn k # post \<longrightarrow>
               (\<exists>pre'. pre = EPut (Total (total_hits (json (search_api w (search_url params))))) # pre'))
         \<and> (\<forall>t. iterator s = Some t \<longrightarrow>
               t = Total (total_hits (json (search_api w (search_url params))))
               \<and> (\<exists>gs. gets (trace s) = t # gs))
         \<and> (delivered s \<noteq> [] \<longrightarrow> iterator s \<noteq> None)
         \<and> gets (trace s) = opt (iterator s) @ delivered s @ replicate (stops s) Sentinel"
proof -
  have inv: "invariant w params s"
    unfolding assms by (rule invariant_run)
  note i = invariantD [OF inv]
  let ?total = "EPut (Total (total_hits (json (search_api w (search_url params)))))"
  have first: "\<exists>pgs rest. fetched s = json (search_api w (search_url params)) # pgs
                 \<and> trace s = ?total # rest" if "trace s \<noteq> []"
    using i(7) that by (cases "fetched s") (auto simp: inv_first_def)
  have spawn: "\<exists>pre'. pre = ?total # pre'" if "trace s = pre @ ESpawn k # post" for pre k post
  proof -
    from that have "trace s \<noteq> []"
      by simp
    from first [OF this] obtain rest where "trace s = ?total # rest"
      by blast
    with that show ?thesis
      by (cases pre) simp_all
  qed
  have it: "t = Total (total_hits (json (search_api w (search_url params))))
            \<and> (\<exists>gs. gets (trace s) = t # gs)" if "iterator s = Some t" for t
    using iterator_total [OF i(1,5,7,8) that] i(8) that
    by (auto simp: inv_consumer_def opt_def)
  have del: "iterator s \<noteq> None" if "delivered s \<noteq> []"
    using i(8) that by (auto simp: inv_consumer_def)
  from first spawn it del consumer_view(1) [OF inv] show ?thesis
    by blast
qed

theorem total_is_first_witness:
  "trace (run ex_world ''q=dock'' ex_sched) \<noteq> []
   \<and> iterator (run ex_world ''q=dock'' ex_sched) = Some (Total 3)
   \<and> delivered (run ex_world ''q=dock'' ex_sched) \<noteq> []
   \<and> total_hits (json (search_api ex_world (search_url ''q=dock''))) = 3
   \<and> (\<exists>rest. trace (run ex_world ''q=dock'' ex_sched) = EPut (Total 3) # rest)
   \<and> (\<exists>post. trace (run ex_world ''q=dock'' ex_sched) = [EPut (Total 3)] @ ESpawn 0 # post)
   \<and> (\<exists>gs. gets (trace (run ex_world ''q=dock'' ex_sched)) = Total 3 # gs)"
proof -
  have ne: "trace (run ex_world ''q=dock'' ex_sched) \<noteq> []"
    by (simp add: run_ex ex_final_def)
  have it: "iterator (run ex_world ''q=dock'' ex_sched) = Some (Total 3)"
    by (simp add: run_ex ex_final_def)
  have de: "delivered (run ex_world ''q=dock'' ex_sched) \<noteq> []"
    by (simp add: run_ex ex_final_def)
  have th: "total_hits (json (search_api ex_world (search_url ''q=dock''))) = 3"
    by (simp add: ex_world_def ex_search_json)
  have sp: "\<exists>post. trace (run ex_world ''q=dock'' ex_sched)
              = [EPut (Total 3)] @ ESpawn 0 # post"
    by (simp add: run_ex ex_final_def ex_trace_pre_def)
  note inst = total_is_first [OF refl, of ex_world "''q=dock''" ex_sched]
  from inst ne th have "\<exists>rest. trace (run ex_world ''q=dock'' ex_sched) = EPut (Total 3) # rest"
    by auto
  moreover from inst it have "\<exists>gs. gets (trace (run ex_world ''q=dock'' ex_sched)) = Total 3 # gs"
    by blast
  ultimately show ?thesis
    using ne it de th sp by blast
qed

section \<open>Records and entries\<close>







section \<open>Failures\<close>






end
